theory Spec2Isabelle
  imports Main
begin

chapter \<open>MissEp: a shallow embedding of the reconciliation engine\<close>

text \<open>
  The embedding follows the Python sources: \<^verbatim>\<open>utils/helpers.py\<close> (file-name parser and
  cache store), \<^verbatim>\<open>main.py\<close> (diff engine inside \<^verbatim>\<open>process_show\<close>), \<^verbatim>\<open>tmdb/api.py\<close>
  (catalog client) and \<^verbatim>\<open>media_manager/moviepilot.py\<close> (remediation dispatcher).
  Part I holds the definitions, Part II the lemmas and theorems.
\<close>

section \<open>Part I: definitions\<close>

subsection \<open>Python values: strings, exceptions, \<^verbatim>\<open>int()\<close>\<close>

text \<open>
  A Python \<^verbatim>\<open>str\<close> is a sequence of Unicode code points, so it is modelled as a list of
  natural numbers. \<open>str_of\<close> reads an ASCII literal of the theory as such a string.
\<close>

type_synonym pystr = "nat list"

definition str_of :: "string \<Rightarrow> pystr" where
  "str_of s = map of_char s"

datatype error =
  IndexError | KeyError | ValueError | TypeError | AttributeError | UnboundLocalError | MediaProcessError

text \<open>
  The decimal digits of Unicode (category Nd, Unicode 14.0 as shipped with CPython 3.11)
  come in runs of ten; \<open>digit_zeros\<close> lists the code point of the zero of each run.
  \<^verbatim>\<open>\d\<close> of the \<^verbatim>\<open>re\<close> module matches exactly these code points on a \<^verbatim>\<open>str\<close> pattern, and
  \<^verbatim>\<open>int()\<close> reads each of them with its decimal value.
\<close>

definition digit_zeros :: "nat list" where
  "digit_zeros = [48, 1632, 1776, 1984, 2406, 2534, 2662, 2790, 2918, 3046, 3174, 3302,
     3430, 3558, 3664, 3792, 3872, 4160, 4240, 6112, 6160, 6470, 6608, 6784, 6800, 6992,
     7088, 7232, 7248, 42528, 43216, 43264, 43472, 43504, 43600, 44016, 65296, 66720,
     68912, 69734, 69872, 69942, 70096, 70384, 70736, 70864, 71248, 71360, 71472, 71904,
     72016, 72784, 73040, 73120, 92768, 92864, 93008, 120782, 120792, 120802, 120812,
     120822, 123200, 123632, 125264, 130032]"

definition digit_val :: "nat \<Rightarrow> nat option" where
  "digit_val c = (case find (\<lambda>z. z \<le> c \<and> c \<le> z + 9) digit_zeros of
                    None \<Rightarrow> None | Some z \<Rightarrow> Some (c - z))"

definition is_digit :: "nat \<Rightarrow> bool" where
  "is_digit c = (digit_val c \<noteq> None)"

text \<open>The code points for which \<^verbatim>\<open>str.isspace\<close> holds; \<^verbatim>\<open>\s\<close> matches exactly these.\<close>

definition space_chars :: "nat list" where
  "space_chars = [9, 10, 11, 12, 13, 28, 29, 30, 31, 32, 133, 160, 5760, 8192, 8193, 8194,
     8195, 8196, 8197, 8198, 8199, 8200, 8201, 8202, 8232, 8233, 8239, 8287, 12288]"

definition is_space :: "nat \<Rightarrow> bool" where
  "is_space c = (c \<in> set space_chars)"

text \<open>
  \<^verbatim>\<open>int(s)\<close> on a string: surrounding whitespace is stripped (the characters of
  \<open>int_space_chars\<close>: those of \<^verbatim>\<open>str.isspace\<close> other than the four separators U+001C to
  U+001F, on which \<^verbatim>\<open>int()\<close> raises), one sign is allowed, then decimal digits follow,
  with single underscores allowed between digits. Anything else raises \<^verbatim>\<open>ValueError\<close>.
\<close>

definition int_space_chars :: "nat list" where
  "int_space_chars = [9, 10, 11, 12, 13, 32, 133, 160, 5760, 8192, 8193, 8194, 8195, 8196,
     8197, 8198, 8199, 8200, 8201, 8202, 8232, 8233, 8239, 8287, 12288]"

definition is_int_space :: "nat \<Rightarrow> bool" where
  "is_int_space c = (c \<in> set int_space_chars)"

definition strip :: "pystr \<Rightarrow> pystr" where
  "strip s = rev (dropWhile is_int_space (rev (dropWhile is_int_space s)))"

fun int_body_ok :: "pystr \<Rightarrow> bool" where
  "int_body_ok [] = False"
| "int_body_ok [c] = is_digit c"
| "int_body_ok (c # d # cs) =
     (is_digit c \<and> (if d = 95 then int_body_ok cs else int_body_ok (d # cs)))"

definition digits_value :: "pystr \<Rightarrow> int" where
  "digits_value ds = foldl (\<lambda>acc c. 10 * acc + int (case digit_val c of None \<Rightarrow> 0 | Some v \<Rightarrow> v)) 0 ds"

definition py_int :: "pystr \<Rightarrow> error + int" where
  "py_int s =
     (let t = strip s;
          neg = (case t of c # _ \<Rightarrow> c = 45 | [] \<Rightarrow> False);
          body = (case t of c # r \<Rightarrow> if c = 43 \<or> c = 45 then r else t | [] \<Rightarrow> t)
      in if int_body_ok body
         then Inr ((if neg then - 1 else 1) * digits_value (filter (\<lambda>c. c \<noteq> 95) body))
         else Inl ValueError)"

subsection \<open>The regular expressions of the \<^verbatim>\<open>re\<close> module that the sources use\<close>

text \<open>
  Character classes. A literal is matched under \<^verbatim>\<open>re.IGNORECASE\<close>, as every pattern with a
  letter in the sources is: \<open>ic_chars c\<close> lists the code points that the pattern literal
  \<open>c\<close> matches (for the ASCII and CJK literals of the patterns: both cases of a letter,
  and the three code points that CPython folds onto \<^verbatim>\<open>s\<close>, \<^verbatim>\<open>i\<close> and \<^verbatim>\<open>k\<close>).
\<close>

definition ic_chars :: "nat \<Rightarrow> nat list" where
  "ic_chars c =
     (if c = 115 \<or> c = 83 then [83, 115, 383]
      else if c = 105 \<or> c = 73 then [73, 105, 304, 305]
      else if c = 107 \<or> c = 75 then [75, 107, 8490]
      else if 97 \<le> c \<and> c \<le> 122 then [c - 32, c]
      else if 65 \<le> c \<and> c \<le> 90 then [c, c + 32]
      else [c])"

datatype cls =
    Lit nat            \<comment> \<open>a literal character\<close>
  | Digit              \<comment> \<open>\<^verbatim>\<open>\d\<close>\<close>
  | Space              \<comment> \<open>\<^verbatim>\<open>\s\<close>\<close>
  | Dot                \<comment> \<open>\<^verbatim>\<open>.\<close>: anything but a newline\<close>
  | Bracket "cls list" \<comment> \<open>\<^verbatim>\<open>[...]\<close>\<close>

fun in_cls :: "cls \<Rightarrow> nat \<Rightarrow> bool" where
  "in_cls (Lit c) x = (x \<in> set (ic_chars c))"
| "in_cls Digit x = is_digit x"
| "in_cls Space x = is_space x"
| "in_cls Dot x = (x \<noteq> 10)"
| "in_cls (Bracket cs) x = list_ex (\<lambda>c. in_cls c x) cs"

text \<open>
  The pattern constructs that occur in the sources. Every quantifier of the sources is
  applied to a single character class.
\<close>

datatype re =
    Chr cls               \<comment> \<open>one character of the class\<close>
  | Cat re re             \<comment> \<open>concatenation\<close>
  | Grp re                \<comment> \<open>\<^verbatim>\<open>(...)\<close>: a capturing group\<close>
  | Rep cls nat nat       \<comment> \<open>\<^verbatim>\<open>c{m,n}\<close>, greedy\<close>
  | Star cls              \<comment> \<open>\<^verbatim>\<open>c*\<close>, greedy\<close>
  | Plus cls              \<comment> \<open>\<^verbatim>\<open>c+\<close>, greedy\<close>
  | LazyStar cls          \<comment> \<open>\<^verbatim>\<open>c*?\<close>, lazy\<close>
  | Alt re re             \<comment> \<open>\<^verbatim>\<open>a|b\<close>\<close>
  | Eos                   \<comment> \<open>\<^verbatim>\<open>$\<close>: the end, or just before a final newline\<close>
  | Look re               \<comment> \<open>\<^verbatim>\<open>(?=...)\<close>: lookahead\<close>

text \<open>
  \<open>run c xs\<close> is the number of leading characters of \<open>xs\<close> in the class.
  \<open>rmatch r xs\<close> lists every way in which \<open>r\<close> matches a prefix of \<open>xs\<close>, in the order in
  which the backtracking matcher tries them, as pairs of the groups captured (in the order
  of their opening parentheses) and the rest of the input.
\<close>

definition run :: "cls \<Rightarrow> pystr \<Rightarrow> nat" where
  "run c xs = length (takeWhile (in_cls c) xs)"

fun rmatch :: "re \<Rightarrow> pystr \<Rightarrow> (pystr list \<times> pystr) list" where
  "rmatch (Chr c) xs = (case xs of [] \<Rightarrow> [] | x # r \<Rightarrow> if in_cls c x then [([], r)] else [])"
| "rmatch (Cat a b) xs =
     concat (map (\<lambda>(g, r). map (\<lambda>(h, r'). (g @ h, r')) (rmatch b r)) (rmatch a xs))"
| "rmatch (Grp a) xs =
     map (\<lambda>(g, r). (take (length xs - length r) xs # g, r)) (rmatch a xs)"
| "rmatch (Rep c m n) xs =
     map (\<lambda>k. ([], drop k xs)) (rev [m ..< Suc (min n (run c xs))])"
| "rmatch (Star c) xs = map (\<lambda>k. ([], drop k xs)) (rev [0 ..< Suc (run c xs)])"
| "rmatch (Plus c) xs = map (\<lambda>k. ([], drop k xs)) (rev [1 ..< Suc (run c xs)])"
| "rmatch (LazyStar c) xs = map (\<lambda>k. ([], drop k xs)) [0 ..< Suc (run c xs)]"
| "rmatch (Alt a b) xs = rmatch a xs @ rmatch b xs"
| "rmatch Eos xs = (if xs = [] \<or> xs = [10] then [([], xs)] else [])"
| "rmatch (Look a) xs = (if rmatch a xs = [] then [] else [([], xs)])"

text \<open>\<^verbatim>\<open>re.search\<close>: the first match at the leftmost position that has one; its groups.\<close>

fun re_search :: "re \<Rightarrow> pystr \<Rightarrow> pystr list option" where
  "re_search r [] = (case rmatch r [] of (g, _) # _ \<Rightarrow> Some g | [] \<Rightarrow> None)"
| "re_search r (x # xs) =
     (case rmatch r (x # xs) of (g, _) # _ \<Rightarrow> Some g | [] \<Rightarrow> re_search r xs)"

text \<open>\<^verbatim>\<open>match.group(i)\<close> for \<open>i \<ge> 1\<close>; a group that the pattern does not have raises.\<close>

definition group :: "pystr list \<Rightarrow> nat \<Rightarrow> error + pystr" where
  "group gs i = (if 1 \<le> i \<and> i \<le> length gs then Inr (gs ! (i - 1)) else Inl IndexError)"

fun seq :: "re list \<Rightarrow> re" where
  "seq [] = Rep Dot 0 0"
| "seq [r] = r"
| "seq (r # rs) = Cat r (seq rs)"

definition word :: "string \<Rightarrow> re" where
  "word s = seq (map (\<lambda>c. Chr (Lit (of_char c))) s)"

subsection \<open>File-name parser (\<^verbatim>\<open>utils/helpers.py\<close>, \<^verbatim>\<open>parse_filename\<close>)\<close>

text \<open>\<^verbatim>\<open>str.split(sep)\<close> for a one-character separator, and \<^verbatim>\<open>xs[-1]\<close>.\<close>

fun split_on :: "nat \<Rightarrow> pystr \<Rightarrow> pystr list" where
  "split_on sep [] = [[]]"
| "split_on sep (c # cs) =
     (if c = sep then [] # split_on sep cs
      else (case split_on sep cs of p # ps \<Rightarrow> (c # p) # ps | [] \<Rightarrow> [[c]]))"

definition py_last :: "'a list \<Rightarrow> error + 'a" where
  "py_last xs = (case rev xs of [] \<Rightarrow> Inl IndexError | x # _ \<Rightarrow> Inr x)"

text \<open>The first statement of \<^verbatim>\<open>parse_filename\<close>: \<^verbatim>\<open>filepath.split('/')[-1]\<close>.\<close>

definition basename :: "pystr \<Rightarrow> error + pystr" where
  "basename filepath = py_last (split_on 47 filepath)"

definition d12 :: re where
  "d12 = Grp (Rep Digit 1 2)"

text \<open>The five patterns of the first pass, in the order of the source.\<close>

definition pat_sxxexx :: re where
  \<comment> \<open>\<^verbatim>\<open>[sS](\d{1,2})[eE](\d{1,2})\<close>\<close>
  "pat_sxxexx = seq [Chr (Bracket [Lit 115, Lit 83]), d12, Chr (Bracket [Lit 101, Lit 69]), d12]"

definition pat_season_episode :: re where
  \<comment> \<open>\<^verbatim>\<open>[sS]eason\s*(\d{1,2}).*?[eE]pisode\s*(\d{1,2})\<close>\<close>
  "pat_season_episode =
     seq [Chr (Bracket [Lit 115, Lit 83]), word ''eason'', Star Space, d12, LazyStar Dot,
          Chr (Bracket [Lit 101, Lit 69]), word ''pisode'', Star Space, d12]"

definition pat_nxm :: re where
  \<comment> \<open>\<^verbatim>\<open>(\d{1,2})x(\d{1,2})\<close>\<close>
  "pat_nxm = seq [d12, Chr (Lit 120), d12]"

definition pat_cjk :: re where
  \<comment> \<open>\<^verbatim>\<open>[U+7B2C](\d{1,2})[U+5B63].*?[U+7B2C](\d{1,2})[U+96C6]\<close>\<close>
  "pat_cjk =
     seq [Chr (Bracket [Lit 31532]), d12, Chr (Bracket [Lit 23395]), LazyStar Dot,
          Chr (Bracket [Lit 31532]), d12, Chr (Bracket [Lit 38598])]"

definition pat_see :: re where
  \<comment> \<open>\<^verbatim>\<open>[.\s_](\d{1,2})(\d{2})[.\s_]\<close>\<close>
  "pat_see =
     seq [Chr (Bracket [Lit 46, Space, Lit 95]), d12, Grp (Rep Digit 2 2),
          Chr (Bracket [Lit 46, Space, Lit 95])]"

definition patterns :: "re list" where
  "patterns = [pat_sxxexx, pat_season_episode, pat_nxm, pat_cjk, pat_see]"

text \<open>The four episode-only patterns of the second pass.\<close>

definition pat_e :: re where
  \<comment> \<open>\<^verbatim>\<open>[eE](\d{1,2})\<close>\<close>
  "pat_e = seq [Chr (Bracket [Lit 101, Lit 69]), d12]"

definition pat_episode :: re where
  \<comment> \<open>\<^verbatim>\<open>[eE]pisode\s*(\d{1,2})\<close>\<close>
  "pat_episode = seq [Chr (Bracket [Lit 101, Lit 69]), word ''pisode'', Star Space, d12]"

definition pat_cjk_episode :: re where
  \<comment> \<open>\<^verbatim>\<open>[U+7B2C](\d{1,2})[U+96C6]\<close>\<close>
  "pat_cjk_episode = seq [Chr (Bracket [Lit 31532]), d12, Chr (Bracket [Lit 38598])]"

definition pat_bare :: re where
  \<comment> \<open>\<^verbatim>\<open>(\d{1,2})(?=\.|$|\s+)\<close>\<close>
  "pat_bare = seq [d12, Look (Alt (Chr (Lit 46)) (Alt Eos (Plus Space)))]"

definition episode_patterns :: "re list" where
  "episode_patterns = [pat_e, pat_episode, pat_cjk_episode, pat_bare]"

text \<open>The loop \<^verbatim>\<open>for pattern in ...: match = re.search(...); if match: ...\<close>.\<close>

fun first_match :: "re list \<Rightarrow> pystr \<Rightarrow> pystr list option" where
  "first_match [] s = None"
| "first_match (p # ps) s =
     (case re_search p s of Some gs \<Rightarrow> Some gs | None \<Rightarrow> first_match ps s)"

definition int_group :: "pystr list \<Rightarrow> nat \<Rightarrow> error + int" where
  "int_group gs i = (case group gs i of Inl e \<Rightarrow> Inl e | Inr g \<Rightarrow> py_int g)"

definition parse_filename :: "pystr \<Rightarrow> int option \<Rightarrow> error + (int \<times> int) option" where
  "parse_filename filepath known_season =
     (case basename filepath of
        Inl e \<Rightarrow> Inl e
      | Inr filename \<Rightarrow>
         (case first_match patterns filename of
            Some gs \<Rightarrow>
              (case int_group gs 1 of
                 Inl e \<Rightarrow> Inl e
               | Inr season \<Rightarrow>
                  (case int_group gs 2 of
                     Inl e \<Rightarrow> Inl e
                   | Inr episode \<Rightarrow> Inr (Some (season, episode))))
          | None \<Rightarrow>
              (case known_season of
                 None \<Rightarrow> Inr None
               | Some ks \<Rightarrow>
                  (case first_match episode_patterns filename of
                     Some gs \<Rightarrow>
                       (case int_group gs 1 of
                          Inl e \<Rightarrow> Inl e
                        | Inr episode \<Rightarrow> Inr (Some (ks, episode)))
                   | None \<Rightarrow> Inr None))))"


subsection \<open>Diff engine (\<^verbatim>\<open>main.py\<close>, the loop of \<^verbatim>\<open>process_show\<close> that fills \<^verbatim>\<open>missing\<close>)\<close>

text \<open>
  \<^verbatim>\<open>local_seasons\<close> is a \<^verbatim>\<open>defaultdict(set)\<close> read with \<^verbatim>\<open>.get(season, set())\<close>; it is a map
  from seasons to sets of episodes. \<^verbatim>\<open>tmdb_structure\<close> is a dictionary from seasons to
  episode lists, iterated in insertion order: an association list, whose keys are distinct
  when it comes from a dictionary. \<^verbatim>\<open>missing\<close> is the dictionary that the loop fills.
\<close>

definition local_get :: "(int \<rightharpoonup> int set) \<Rightarrow> int \<Rightarrow> int set" where
  "local_get local_seasons season = (case local_seasons season of None \<Rightarrow> {} | Some eps \<Rightarrow> eps)"

fun missing_loop ::
  "(int \<times> int list) list \<Rightarrow> (int \<rightharpoonup> int set) \<Rightarrow> (int \<rightharpoonup> int list) \<Rightarrow> (int \<rightharpoonup> int list)" where
  "missing_loop [] local_seasons missing = missing"
| "missing_loop ((season, eps) # rest) local_seasons missing =
     (let all_eps = set eps;
          local_eps = local_get local_seasons season;
          diff = all_eps - local_eps
      in missing_loop rest local_seasons
           (if diff \<noteq> {} then missing(season \<mapsto> sorted_list_of_set diff) else missing))"

definition compute_missing :: "(int \<rightharpoonup> int set) \<Rightarrow> (int \<times> int list) list \<Rightarrow> (int \<rightharpoonup> int list)" where
  "compute_missing local_seasons tmdb_structure = missing_loop tmdb_structure local_seasons Map.empty"


subsection \<open>Cache store (\<^verbatim>\<open>utils/helpers.py\<close>: \<^verbatim>\<open>CacheData\<close>, \<^verbatim>\<open>save_cache\<close>, \<^verbatim>\<open>load_cache\<close>, \<^verbatim>\<open>reset_cache\<close>)\<close>

text \<open>
  The values that \<^verbatim>\<open>json.loads\<close> returns and \<^verbatim>\<open>json.dumps\<close> accepts (floating-point numbers
  left out). A dictionary is an association list in insertion order. The fields of
  \<^verbatim>\<open>CacheData\<close> hold such values: \<^verbatim>\<open>load_cache\<close> stores whatever the document holds under
  the two keys, without checking its shape.
\<close>

datatype json =
    JNull | JBool bool | JInt int | JStr pystr | JArr "json list" | JObj "(pystr \<times> json) list"

text \<open>\<^verbatim>\<open>d[k] = v\<close>, \<^verbatim>\<open>d.get(k, default)\<close>, \<^verbatim>\<open>k in container\<close> and \<^verbatim>\<open>container[k] = v\<close>.\<close>

fun dict_set :: "(pystr \<times> json) list \<Rightarrow> pystr \<Rightarrow> json \<Rightarrow> (pystr \<times> json) list" where
  "dict_set [] k v = [(k, v)]"
| "dict_set ((k', v') # kvs) k v = (if k' = k then (k, v) # kvs else (k', v') # dict_set kvs k v)"

definition dict_get :: "(pystr \<times> json) list \<Rightarrow> pystr \<Rightarrow> json \<Rightarrow> json" where
  "dict_get kvs k dflt = (case map_of kvs k of None \<Rightarrow> dflt | Some v \<Rightarrow> v)"

fun is_infix :: "pystr \<Rightarrow> pystr \<Rightarrow> bool" where
  "is_infix s [] = (s = [])"
| "is_infix s (c # cs) = (take (length s) (c # cs) = s \<or> is_infix s cs)"

definition py_in :: "pystr \<Rightarrow> json \<Rightarrow> error + bool" where
  "py_in k container =
     (case container of
        JObj kvs \<Rightarrow> Inr (k \<in> fst ` set kvs)
      | JArr vs \<Rightarrow> Inr (JStr k \<in> set vs)
      | JStr s \<Rightarrow> Inr (is_infix k s)
      | _ \<Rightarrow> Inl TypeError)"

definition py_setitem :: "json \<Rightarrow> pystr \<Rightarrow> json \<Rightarrow> error + json" where
  "py_setitem container k v =
     (case container of JObj kvs \<Rightarrow> Inr (JObj (dict_set kvs k v)) | _ \<Rightarrow> Inl TypeError)"

record CacheData =
  complete_dirs :: json
  tmdb_map :: json

definition create_empty :: CacheData where
  "create_empty = \<lparr>complete_dirs = JObj [], tmdb_map = JObj []\<rparr>"

















subsection \<open>Catalog client (\<^verbatim>\<open>tmdb/api.py\<close>, \<^verbatim>\<open>search_tv_show\<close>)\<close>

text \<open>
  A candidate of the search result, with the fields of the dataclass \<^verbatim>\<open>TMDBShow\<close>, and its
  property \<^verbatim>\<open>year\<close>.
\<close>

record TMDBShow =
  tv_id :: int
  tv_name :: pystr
  first_air_date :: "pystr option"

definition show_year :: "TMDBShow \<Rightarrow> int option" where
  "show_year self =
     (case first_air_date self of
        None \<Rightarrow> None
      | Some d \<Rightarrow>
          if d \<noteq> [] \<and> 4 \<le> length d
          then (case py_int (take 4 d) of Inl _ \<Rightarrow> None | Inr y \<Rightarrow> Some y)
          else None)"

text \<open>\<^verbatim>\<open>extract_year\<close> of \<^verbatim>\<open>utils/helpers.py\<close>, and the truth value of an optional integer.\<close>

definition pat_year :: re where
  \<comment> \<open>\<^verbatim>\<open>\((\d{4})\)\<close>\<close>
  "pat_year = seq [Chr (Lit 40), Grp (Rep Digit 4 4), Chr (Lit 41)]"

definition extract_year :: "pystr \<Rightarrow> error + int option" where
  "extract_year title =
     (case re_search pat_year title of
        None \<Rightarrow> Inr None
      | Some gs \<Rightarrow> (case int_group gs 1 of Inl e \<Rightarrow> Inl e | Inr y \<Rightarrow> Inr (Some y)))"

definition truthy :: "int option \<Rightarrow> bool" where
  "truthy year = (case year of None \<Rightarrow> False | Some y \<Rightarrow> y \<noteq> 0)"

text \<open>
  The loop that looks for the closest year, with its two variables \<^verbatim>\<open>best_match\<close> and
  \<^verbatim>\<open>closest_diff\<close>; \<^verbatim>\<open>results[0]\<close>; and the selection among the candidates, the part of
  \<^verbatim>\<open>search_tv_show\<close> between the construction of \<^verbatim>\<open>results\<close> and the write to the cache.
\<close>

fun closest_loop :: "int \<Rightarrow> TMDBShow list \<Rightarrow> TMDBShow option \<Rightarrow> int \<Rightarrow> TMDBShow option" where
  "closest_loop year [] best_match closest_diff = best_match"
| "closest_loop year (show # rest) best_match closest_diff =
     (if truthy (show_year show)
      then (let diff = \<bar>the (show_year show) - year\<bar>
            in if diff < closest_diff then closest_loop year rest (Some show) diff
               else closest_loop year rest best_match closest_diff)
      else closest_loop year rest best_match closest_diff)"

definition first_result :: "TMDBShow list \<Rightarrow> error + TMDBShow" where
  "first_result results = (case results of [] \<Rightarrow> Inl IndexError | show # _ \<Rightarrow> Inr show)"

definition select_show :: "int option \<Rightarrow> TMDBShow list \<Rightarrow> error + TMDBShow" where
  "select_show year results =
     (if truthy year
      then (let y = the year in
            case find (\<lambda>show. show_year show = Some y) results of
              Some show \<Rightarrow> Inr show
            | None \<Rightarrow>
               (case find (\<lambda>show. truthy (show_year show) \<and> \<bar>the (show_year show) - y\<bar> \<le> 1) results of
                  Some show \<Rightarrow> Inr show
                | None \<Rightarrow>
                   (case closest_loop y results None 9999 of
                      Some best_match \<Rightarrow> Inr best_match
                    | None \<Rightarrow> first_result results)))
      else first_result results)"

text \<open>
  What the HTTP request of \<^verbatim>\<open>search_tv_show\<close> yields: a client error, or a status with the
  candidates of the \<^verbatim>\<open>results\<close> field of the body (empty when the field is missing or
  empty). The request itself (the query built from the title) is not modelled.
\<close>

datatype tmdb_response = ClientError | Response nat "TMDBShow list"

text \<open>
  The cache hit: \<^verbatim>\<open>name.split(" (")[0]\<close>, the equality of JSON scalars in Python (where
  \<^verbatim>\<open>True == 1\<close>), and the name looked up among the other titles with the same ID.
\<close>

fun before_first :: "pystr \<Rightarrow> pystr \<Rightarrow> pystr" where
  "before_first sep [] = []"
| "before_first sep (c # cs) =
     (if take (length sep) (c # cs) = sep then [] else c # before_first sep cs)"

fun py_eq :: "json \<Rightarrow> json \<Rightarrow> bool" where
  "py_eq (JBool a) (JInt b) = ((if a then 1 else 0) = b)"
| "py_eq (JInt a) (JBool b) = (a = (if b then 1 else 0))"
| "py_eq a b = (a = b)"

definition cached_name :: "(pystr \<times> json) list \<Rightarrow> pystr \<Rightarrow> json \<Rightarrow> pystr" where
  "cached_name items title tmdb_id =
     (case find (\<lambda>(name, id). py_eq id tmdb_id \<and> name \<noteq> title) items of
        Some (name, _) \<Rightarrow> before_first (str_of '' ('') name
      | None \<Rightarrow> title)"

definition search_tv_show ::
  "pystr \<Rightarrow> CacheData \<Rightarrow> tmdb_response \<Rightarrow> (error + (json \<times> pystr) option) \<times> CacheData" where
  "search_tv_show title cache response =
     (case py_in title (tmdb_map cache) of
        Inl e \<Rightarrow> (Inl e, cache)
      | Inr True \<Rightarrow>
          (case tmdb_map cache of
             JObj kvs \<Rightarrow>
               (case map_of kvs title of
                  Some tmdb_id \<Rightarrow> (Inr (Some (tmdb_id, cached_name kvs title tmdb_id)), cache)
                | None \<Rightarrow> (Inl KeyError, cache))
           | _ \<Rightarrow> (Inl TypeError, cache))
      | Inr False \<Rightarrow>
          (case extract_year title of
             Inl e \<Rightarrow> (Inl e, cache)
           | Inr year \<Rightarrow>
              (case response of
                 ClientError \<Rightarrow> (Inl MediaProcessError, cache)
               | Response status results \<Rightarrow>
                   if status \<noteq> 200 then (Inl MediaProcessError, cache)
                   else if results = [] then (Inr None, cache)
                   else (case select_show year results of
                           Inl e \<Rightarrow> (Inl MediaProcessError, cache)
                         | Inr show \<Rightarrow>
                            (case py_setitem (tmdb_map cache) title (JInt (tv_id show)) of
                               Inl e \<Rightarrow> (Inl MediaProcessError, cache)
                             | Inr m \<Rightarrow>
                                (Inr (Some (JInt (tv_id show), tv_name show)),
                                 cache\<lparr>tmdb_map := m\<rparr>))))))"

text \<open>
  The selection policy in the words of the specification. \<open>year_diff y show\<close> is the
  absolute year difference of a candidate that has a year (a year 0 counts as none, as in
  the code's tests \<^verbatim>\<open>if show.year\<close>). A year is supplied when the title holds a year other
  than 0. \<open>find\<close> returns the first element of a list that satisfies a predicate.
\<close>

definition year_diff :: "int \<Rightarrow> TMDBShow \<Rightarrow> int option" where
  "year_diff y show =
     (case show_year show of
        None \<Rightarrow> None
      | Some sy \<Rightarrow> if sy = 0 then None else Some \<bar>sy - y\<bar>)"

definition selection_policy :: "int option \<Rightarrow> TMDBShow list \<Rightarrow> TMDBShow \<Rightarrow> bool" where
  "selection_policy year results w =
     (case year of
        None \<Rightarrow> first_result results = Inr w
      | Some y \<Rightarrow>
          if y = 0 then first_result results = Inr w
          else if \<exists>s\<in>set results. show_year s = Some y
            then find (\<lambda>s. show_year s = Some y) results = Some w
          else if \<exists>s\<in>set results. \<exists>d. year_diff y s = Some d \<and> d \<le> 1
            then find (\<lambda>s. \<exists>d. year_diff y s = Some d \<and> d \<le> 1) results = Some w
          else if \<exists>s\<in>set results. \<exists>d. year_diff y s = Some d \<and> d < 9999
            then \<exists>dw. year_diff y w = Some dw \<and>
                   (\<forall>s\<in>set results. \<forall>d. year_diff y s = Some d \<longrightarrow> dw \<le> d) \<and>
                   find (\<lambda>s. year_diff y s = Some dw) results = Some w
          else first_result results = Inr w)"


subsection \<open>Rendering integers (\<^verbatim>\<open>str(n)\<close>, \<^verbatim>\<open>f"{n:02d}"\<close>)\<close>

function dec_nat :: "nat \<Rightarrow> pystr" where
  "dec_nat n = (if n < 10 then [48 + n] else dec_nat (n div 10) @ [48 + n mod 10])"
  by pat_completeness auto
termination
  by (relation "measure id") auto

definition py_str :: "int \<Rightarrow> pystr" where
  "py_str n = (if n < 0 then 45 # dec_nat (nat (- n)) else dec_nat (nat n))"

definition fmt_02d :: "int \<Rightarrow> pystr" where
  "fmt_02d n = (if 0 \<le> n \<and> n < 10 then 48 # py_str n else py_str n)"



text \<open>The token \<^verbatim>\<open>f"S{season:02d}E{ep:02d}"\<close> of \<^verbatim>\<open>handle_missing_episodes\<close>.\<close>

definition sxxexx_token :: "int \<Rightarrow> int \<Rightarrow> pystr" where
  "sxxexx_token season ep = 83 # fmt_02d season @ 69 # fmt_02d ep"

subsection \<open>Remediation dispatcher (\<^verbatim>\<open>media_manager/moviepilot.py\<close>)\<close>

text \<open>
  The automation service is an environment: \<open>login_resp\<close>, \<open>post_resp\<close> and \<open>search_out\<close>
  give its answer to the n-th login request, the n-th POST (create-subscription or
  add-download-task) and the n-th resource search. An answer is a client error or a status
  with the body that \<^verbatim>\<open>response.json()\<close> returns (\<open>None\<close> when that call raises). The state
  holds the module-level \<^verbatim>\<open>access_token\<close> and counts the requests made. \<^verbatim>\<open>search\<close> is taken at
  its interface: it returns \<^verbatim>\<open>(True, results)\<close> or raises \<^verbatim>\<open>MediaProcessError\<close>.
\<close>

datatype http_response = NetworkError | Http nat "json option"

record resource =
  res_title :: json
  res_torrent_info :: json

datatype search_outcome = SearchRaises | SearchReturns "resource list"

record mp_world =
  login_resp :: "nat \<Rightarrow> http_response"
  post_resp :: "nat \<Rightarrow> http_response"
  search_out :: "nat \<Rightarrow> search_outcome"

record mp_state =
  access_token :: "pystr option"
  n_login :: nat
  n_post :: nat
  n_search :: nat

text \<open>
  \<^verbatim>\<open>MoviePilotResult\<close>; the human-readable message is kept as a constructor per message of
  the source.
\<close>

datatype mp_message =
    LoginFailed | Subscribed | SubscribeFailed | SubscribeError error | DownloadAdded json
  | NoResource | SearchFailed | SearchError error | NoAction

record MoviePilotResult =
  mp_success :: bool
  mp_message :: mp_message
  mp_data :: "json option"

definition logged_in :: "mp_state \<Rightarrow> bool" where
  "logged_in s = (case access_token s of None \<Rightarrow> False | Some t \<Rightarrow> t \<noteq> [])"

fun py_truthy :: "json \<Rightarrow> bool" where
  "py_truthy JNull = False"
| "py_truthy (JBool b) = b"
| "py_truthy (JInt n) = (n \<noteq> 0)"
| "py_truthy (JStr s) = (s \<noteq> [])"
| "py_truthy (JArr vs) = (vs \<noteq> [])"
| "py_truthy (JObj kvs) = (kvs \<noteq> [])"

definition login :: "mp_world \<Rightarrow> mp_state \<Rightarrow> (error + bool) \<times> mp_state" where
  "login w s =
     (let s1 = s\<lparr>n_login := Suc (n_login s)\<rparr> in
      case login_resp w (n_login s) of
        NetworkError \<Rightarrow> (Inl MediaProcessError, s1)
      | Http status body \<Rightarrow>
          if status = 200 then
            (case body of
               None \<Rightarrow> (Inl MediaProcessError, s1)
             | Some data \<Rightarrow>
                (case py_in (str_of ''access_token'') data of
                   Inl e \<Rightarrow> (Inl MediaProcessError, s1)
                 | Inr False \<Rightarrow> (Inr False, s1)
                 | Inr True \<Rightarrow>
                    (case data of
                       JObj kvs \<Rightarrow>
                         (case (map_of kvs (str_of ''token_type''), map_of kvs (str_of ''access_token'')) of
                            (Some (JStr tt), Some (JStr at)) \<Rightarrow>
                              (Inr True, s1\<lparr>access_token := Some (tt @ str_of '' '' @ at)\<rparr>)
                          | _ \<Rightarrow> (Inl MediaProcessError, s1))
                     | _ \<Rightarrow> (Inl MediaProcessError, s1))))
          else (Inr False, s1))"

text \<open>
  What \<^verbatim>\<open>create_subscribe\<close> and \<^verbatim>\<open>add_download_task\<close> make of a 200 answer (an exception in
  this code ends in \<^verbatim>\<open>except Exception\<close> and \<^verbatim>\<open>return False, None\<close>), and their common
  body. On a 401 answer they log in again and, if that succeeds, call themselves. \<open>depth\<close>
  is the number of nested calls that the interpreter's recursion limit still allows: when
  it is used up the innermost call fails with \<^verbatim>\<open>RecursionError\<close>, which \<^verbatim>\<open>except Exception\<close>
  turns into \<^verbatim>\<open>(False, None)\<close>. The result is a sum so that a raise of the callee has a
  place in the callers.
\<close>

definition subscribe_reply :: "json \<Rightarrow> bool \<times> json" where
  "subscribe_reply data =
     (case data of
        JObj kvs \<Rightarrow>
          if py_truthy (dict_get kvs (str_of ''success'') (JBool False))
          then (case dict_get kvs (str_of ''data'') (JObj []) of
                  JObj inner \<Rightarrow> (True, dict_get inner (str_of ''id'') JNull)
                | _ \<Rightarrow> (False, JNull))
          else (False, JNull)
      | _ \<Rightarrow> (False, JNull))"

definition download_reply :: "json \<Rightarrow> bool \<times> json" where
  "download_reply data =
     (case data of
        JObj kvs \<Rightarrow>
          if py_truthy (dict_get kvs (str_of ''success'') (JBool False))
          then (case map_of kvs (str_of ''data'') of
                  Some (JObj inner) \<Rightarrow>
                    (case map_of inner (str_of ''download_id'') of
                       Some i \<Rightarrow> (True, i)
                     | None \<Rightarrow> (False, JNull))
                | _ \<Rightarrow> (False, JNull))
          else (False, JNull)
      | _ \<Rightarrow> (False, JNull))"

fun authorized_post ::
  "(json \<Rightarrow> bool \<times> json) \<Rightarrow> nat \<Rightarrow> mp_world \<Rightarrow> mp_state \<Rightarrow> (error + bool \<times> json) \<times> mp_state" where
  "authorized_post reply 0 w s = (Inr (False, JNull), s)"
| "authorized_post reply (Suc depth) w s =
     (if \<not> logged_in s then (Inr (False, JNull), s)
      else
        (let s1 = s\<lparr>n_post := Suc (n_post s)\<rparr> in
         case post_resp w (n_post s) of
           NetworkError \<Rightarrow> (Inr (False, JNull), s1)
         | Http status body \<Rightarrow>
             if status = 200 then
               (case body of None \<Rightarrow> (Inr (False, JNull), s1) | Some data \<Rightarrow> (Inr (reply data), s1))
             else if status = 401 then
               (case login w s1 of
                  (Inr True, s2) \<Rightarrow> authorized_post reply depth w s2
                | (_, s2) \<Rightarrow> (Inr (False, JNull), s2))
             else (Inr (False, JNull), s1)))"

definition create_subscribe :: "nat \<Rightarrow> mp_world \<Rightarrow> mp_state \<Rightarrow> (error + bool \<times> json) \<times> mp_state" where
  "create_subscribe depth w s = authorized_post subscribe_reply depth w s"

definition add_download_task :: "nat \<Rightarrow> mp_world \<Rightarrow> mp_state \<Rightarrow> (error + bool \<times> json) \<times> mp_state" where
  "add_download_task depth w s = authorized_post download_reply depth w s"

definition search :: "mp_world \<Rightarrow> mp_state \<Rightarrow> (error + bool \<times> resource list) \<times> mp_state" where
  "search w s =
     (case (if logged_in s then (Inr True, s) else login w s) of
        (Inr True, s1) \<Rightarrow>
          (let s2 = s1\<lparr>n_search := Suc (n_search s1)\<rparr> in
           case search_out w (n_search s1) of
             SearchRaises \<Rightarrow> (Inl MediaProcessError, s2)
           | SearchReturns results \<Rightarrow> (Inr (True, results), s2))
      | (_, s1) \<Rightarrow> (Inl MediaProcessError, s1))"

text \<open>
  The download attempt of \<^verbatim>\<open>handle_missing_episodes\<close> (from the line \<^verbatim>\<open>search_term = ...\<close> to
  the last \<^verbatim>\<open>except\<close>): the test \<^verbatim>\<open>any(f"S{season:02d}E{ep:02d}" in result["title"] ...)\<close>,
  the download parameters, the loop over the results and the enclosing \<^verbatim>\<open>try\<close>.
\<close>

fun any_token_in :: "int \<Rightarrow> int list \<Rightarrow> json \<Rightarrow> error + bool" where
  "any_token_in season [] t = Inr False"
| "any_token_in season (ep # eps) t =
     (case py_in (sxxexx_token season ep) t of
        Inl e \<Rightarrow> Inl e
      | Inr True \<Rightarrow> Inr True
      | Inr False \<Rightarrow> any_token_in season eps t)"

definition download_params :: "json \<Rightarrow> error + json" where
  "download_params torrent_info =
     (case torrent_info of
        JObj kvs \<Rightarrow>
          (case (map_of kvs (str_of ''id''), map_of kvs (str_of ''site''),
                 map_of kvs (str_of ''enclosure'')) of
             (Some i, Some si, Some en) \<Rightarrow>
               Inr (JObj [(str_of ''id'', i), (str_of ''site'', si), (str_of ''enclosure'', en)])
           | _ \<Rightarrow> Inl KeyError)
      | _ \<Rightarrow> Inl TypeError)"

fun download_loop ::
  "nat \<Rightarrow> mp_world \<Rightarrow> int \<Rightarrow> int list \<Rightarrow> resource list \<Rightarrow> mp_state \<Rightarrow>
     (error + MoviePilotResult) \<times> mp_state" where
  "download_loop depth w season episodes [] s =
     (Inr \<lparr>mp_success = False, mp_message = NoResource, mp_data = None\<rparr>, s)"
| "download_loop depth w season episodes (result # rest) s =
     (case any_token_in season episodes (res_title result) of
        Inl e \<Rightarrow> (Inl e, s)
      | Inr False \<Rightarrow> download_loop depth w season episodes rest s
      | Inr True \<Rightarrow>
          (case download_params (res_torrent_info result) of
             Inl e \<Rightarrow> (Inl e, s)
           | Inr params \<Rightarrow>
              (case add_download_task depth w s of
                 (Inr (True, download_id), s1) \<Rightarrow>
                   (Inr \<lparr>mp_success = True, mp_message = DownloadAdded (res_title result),
                         mp_data = Some (JObj [(str_of ''download_id'', download_id)])\<rparr>, s1)
               | (_, s1) \<Rightarrow> download_loop depth w season episodes rest s1)))"

definition download_attempt ::
  "nat \<Rightarrow> mp_world \<Rightarrow> int \<Rightarrow> int list \<Rightarrow> mp_state \<Rightarrow> (error + MoviePilotResult) \<times> mp_state" where
  "download_attempt depth w season episodes s =
     (case search w s of
        (Inl e, s1) \<Rightarrow>
          (Inr \<lparr>mp_success = False, mp_message = SearchError e, mp_data = None\<rparr>, s1)
      | (Inr (success, results), s1) \<Rightarrow>
          if success \<and> results \<noteq> [] then
            (case download_loop depth w season episodes results s1 of
               (Inl e, s2) \<Rightarrow>
                 (Inr \<lparr>mp_success = False, mp_message = SearchError e, mp_data = None\<rparr>, s2)
             | (Inr r, s2) \<Rightarrow> (Inr r, s2))
          else (Inr \<lparr>mp_success = False, mp_message = SearchFailed, mp_data = None\<rparr>, s1))"

text \<open>
  \<^verbatim>\<open>handle_missing_episodes\<close>. \<open>after_subscribe\<close> is the code from the condition
  \<^verbatim>\<open>if auto_download and (not should_subscribe or (should_subscribe and not success))\<close> on;
  the local variable \<^verbatim>\<open>success\<close> is \<open>None\<close> while it is unbound, and reading it then raises
  \<^verbatim>\<open>UnboundLocalError\<close>.
\<close>

definition should_subscribe :: "bool \<Rightarrow> int \<Rightarrow> int list \<Rightarrow> bool" where
  "should_subscribe auto_subscribe subscribe_threshold episodes =
     (if 0 < subscribe_threshold \<and> int (length episodes) \<le> subscribe_threshold then False
      else auto_subscribe)"

definition after_subscribe ::
  "nat \<Rightarrow> mp_world \<Rightarrow> int \<Rightarrow> int list \<Rightarrow> bool \<Rightarrow> bool \<Rightarrow> bool option \<Rightarrow> mp_state \<Rightarrow>
     (error + MoviePilotResult) \<times> mp_state" where
  "after_subscribe depth w season episodes auto_download should success s =
     (if auto_download then
        (if \<not> should then download_attempt depth w season episodes s
         else (case success of
                 None \<Rightarrow> (Inl UnboundLocalError, s)
               | Some ok \<Rightarrow>
                   if \<not> ok then download_attempt depth w season episodes s
                   else (Inr \<lparr>mp_success = False, mp_message = NoAction, mp_data = None\<rparr>, s)))
      else (Inr \<lparr>mp_success = False, mp_message = NoAction, mp_data = None\<rparr>, s))"

definition handle_missing_episodes ::
  "nat \<Rightarrow> mp_world \<Rightarrow> mp_state \<Rightarrow> pystr \<Rightarrow> int \<Rightarrow> int \<Rightarrow> int list \<Rightarrow> bool \<Rightarrow> bool \<Rightarrow> int \<Rightarrow>
     (error + MoviePilotResult) \<times> mp_state" where
  "handle_missing_episodes depth w s show_name tmdb_id season episodes auto_subscribe auto_download
       subscribe_threshold =
     (case (if logged_in s then (Inr True, s) else login w s) of
        (Inl e, s1) \<Rightarrow> (Inl e, s1)
      | (Inr False, s1) \<Rightarrow>
          (Inr \<lparr>mp_success = False, mp_message = LoginFailed, mp_data = None\<rparr>, s1)
      | (Inr True, s1) \<Rightarrow>
          (case extract_year show_name of
             Inl e \<Rightarrow> (Inl e, s1)
           | Inr year \<Rightarrow>
              (let should = should_subscribe auto_subscribe subscribe_threshold episodes in
               if should then
                 (case create_subscribe depth w s1 of
                    (Inr (success, subscribe_id), s2) \<Rightarrow>
                      if success then
                        (Inr \<lparr>mp_success = True, mp_message = Subscribed,
                              mp_data = Some (JObj [(str_of ''subscribe_id'', subscribe_id)])\<rparr>, s2)
                      else if \<not> auto_download then
                        (Inr \<lparr>mp_success = False, mp_message = SubscribeFailed, mp_data = None\<rparr>, s2)
                      else after_subscribe depth w season episodes auto_download should
                             (Some success) s2
                  | (Inl e, s2) \<Rightarrow>
                      if \<not> auto_download then
                        (Inr \<lparr>mp_success = False, mp_message = SubscribeError e, mp_data = None\<rparr>, s2)
                      else after_subscribe depth w season episodes auto_download should None s2)
               else after_subscribe depth w season episodes auto_download should None s1)))"


text \<open>Concrete environments for the evaluations of Part II.\<close>

definition token_body :: json where
  "token_body = JObj [(str_of ''access_token'', JStr (str_of ''abc'')),
                      (str_of ''token_type'', JStr (str_of ''Bearer''))]"

definition subscribed_body :: json where
  "subscribed_body = JObj [(str_of ''success'', JBool True),
                           (str_of ''data'', JObj [(str_of ''id'', JInt 7)])]"

definition expired_world :: mp_world where
  "expired_world = \<lparr>login_resp = (\<lambda>n. Http 200 (Some token_body)),
                     post_resp = (\<lambda>n. Http 401 None),
                     search_out = (\<lambda>n. SearchRaises)\<rparr>"

definition expired_thrice_world :: mp_world where
  "expired_thrice_world = \<lparr>login_resp = (\<lambda>n. Http 200 (Some token_body)),
                     post_resp = (\<lambda>n. if n < 3 then Http 401 None else Http 200 (Some subscribed_body)),
                     search_out = (\<lambda>n. SearchRaises)\<rparr>"

definition failing_world :: mp_world where
  "failing_world = \<lparr>login_resp = (\<lambda>n. Http 200 (Some token_body)),
                     post_resp = (\<lambda>n. Http 500 None),
                     search_out = (\<lambda>n. SearchReturns [])\<rparr>"

definition session :: mp_state where
  "session = \<lparr>access_token = Some (str_of ''Bearer old''), n_login = 0, n_post = 0, n_search = 0\<rparr>"

subsection \<open>Notions used in the proofs about the parser\<close>

text \<open>
  \<open>ngroups\<close> counts the capturing groups of a pattern; \<open>digit_groups\<close> holds of the
  patterns whose groups all have the shape \<^verbatim>\<open>(\d{m,n})\<close> with \<open>1 \<le> m\<close> and \<open>n \<le> 2\<close>;
  a \<open>short_number\<close> is a string of one or two decimal digits.
\<close>

fun ngroups :: "re \<Rightarrow> nat" where
  "ngroups (Cat a b) = ngroups a + ngroups b"
| "ngroups (Grp a) = Suc (ngroups a)"
| "ngroups (Alt a b) = ngroups a + ngroups b"
| "ngroups _ = 0"

fun digit_groups :: "re \<Rightarrow> bool" where
  "digit_groups (Cat a b) = (digit_groups a \<and> digit_groups b)"
| "digit_groups (Grp a) = (\<exists>m n. a = Rep Digit m n \<and> 1 \<le> m \<and> n \<le> 2)"
| "digit_groups (Alt a b) = (digit_groups a \<and> digit_groups b \<and> ngroups a = 0 \<and> ngroups b = 0)"
| "digit_groups _ = True"

definition short_number :: "pystr \<Rightarrow> bool" where
  "short_number g = (g \<noteq> [] \<and> length g \<le> 2 \<and> list_all is_digit g)"


text \<open>
  The characters that \<^verbatim>\<open>[sS]\<close> and \<^verbatim>\<open>[eE]\<close> match, and \<open>sxxexx_here ys\<close>: the first
  pattern matches at the very start of \<open>ys\<close>.
\<close>

definition s_char :: "nat \<Rightarrow> bool" where "s_char c = in_cls (Bracket [Lit 115, Lit 83]) c"
definition e_char :: "nat \<Rightarrow> bool" where "e_char c = in_cls (Bracket [Lit 101, Lit 69]) c"


definition sxxexx_here :: "pystr \<Rightarrow> bool" where
  "sxxexx_here ys = (\<exists>c r k e r2. ys = c # r \<and> s_char c \<and> 1 \<le> k \<and> k \<le> 2 \<and> k \<le> run Digit r \<and>
       drop k r = e # r2 \<and> e_char e \<and> 1 \<le> run Digit r2)"

section \<open>Part II: lemmas and theorems\<close>

declare dec_nat.simps [simp del]

subsection \<open>Splitting a path\<close>

lemma split_on_nonempty: "split_on sep xs \<noteq> []"
  by (induction xs) (auto split: list.splits)

lemma py_last_nonempty: "xs \<noteq> [] \<Longrightarrow> py_last xs = Inr (last xs)"
  by (cases xs rule: rev_cases) (auto simp: py_last_def)

lemma split_on_id: "sep \<notin> set xs \<Longrightarrow> split_on sep xs = [xs]"
  by (induction xs) auto

lemma split_on_tl: "sep \<in> set xs \<Longrightarrow> tl (split_on sep xs) \<noteq> []"
  using split_on_nonempty[of sep]
  by (induction xs) (auto split: list.splits)

lemma takeWhile_snoc:
  "takeWhile P (xs @ [c]) =
     (if \<forall>x\<in>set xs. P x then xs @ (if P c then [c] else []) else takeWhile P xs)"
  by (induction xs) auto

lemma last_split_on: "last (split_on sep xs) = rev (takeWhile (\<lambda>c. c \<noteq> sep) (rev xs))"
proof (induction xs)
  case Nil
  then show ?case by simp
next
  case (Cons c cs)
  obtain p ps where ps: "split_on sep cs = p # ps"
    using split_on_nonempty[of sep cs] by (cases "split_on sep cs") auto
  show ?case
  proof (cases "sep \<in> set cs")
    case True
    then have "ps \<noteq> []" using ps split_on_tl[of sep cs] by simp
    then show ?thesis using Cons ps True by (auto simp: takeWhile_snoc)
  next
    case False
    then show ?thesis using Cons ps by (auto simp: takeWhile_snoc split_on_id)
  qed
qed

lemma last_split_no_sep: "sep \<notin> set (last (split_on sep xs))"
  unfolding last_split_on using set_takeWhileD[of sep "\<lambda>c. c \<noteq> sep" "rev xs"] by auto

lemma last_split_suffix:
  "xs = rev (dropWhile (\<lambda>c. c \<noteq> sep) (rev xs)) @ last (split_on sep xs)"
  unfolding last_split_on by (metis rev_append rev_rev_ident takeWhile_dropWhile_id)

lemma basename_total: "\<exists>b. basename p = Inr b"
  by (simp add: basename_def py_last_nonempty split_on_nonempty)

lemma basename_no_slash: "47 \<notin> set b \<Longrightarrow> basename b = Inr b"
  by (simp add: basename_def split_on_id py_last_def)

text \<open>
  Claim C10. \<^verbatim>\<open>parse_filename\<close> depends only on the final \<^verbatim>\<open>/\<close>-separated component of
  the path: the component \<open>b\<close> that \<^verbatim>\<open>filepath.split('/')[-1]\<close> returns always exists, is
  what follows the last slash of the path, holds no slash itself, and parsing the whole
  path with any known season gives what parsing \<open>b\<close> alone gives.
\<close>

theorem parse_filename_basename:
  "\<exists>d b. basename p = Inr b \<and> p = d @ b \<and> (d = [] \<or> last d = 47) \<and> 47 \<notin> set b \<and>
         parse_filename p k = parse_filename b k"
proof -
  let ?b = "last (split_on 47 p)"
  let ?d = "rev (dropWhile (\<lambda>c. c \<noteq> 47) (rev p))"
  have 1: "p = ?d @ ?b" by (rule last_split_suffix)
  have 2: "47 \<notin> set ?b" by (rule last_split_no_sep)
  have 3: "basename p = Inr ?b"
    by (simp add: basename_def py_last_nonempty split_on_nonempty)
  have 4: "basename ?b = Inr ?b"
    using 2 by (rule basename_no_slash)
  have 5: "parse_filename p k = parse_filename ?b k"
    unfolding parse_filename_def 3 4 ..
  have 6: "?d = [] \<or> last ?d = 47"
  proof (cases "dropWhile (\<lambda>c. c \<noteq> 47) (rev p)")
    case Nil
    then show ?thesis by simp
  next
    case (Cons x xs)
    then have "x = 47" using hd_dropWhile[of "\<lambda>c. c \<noteq> 47" "rev p"] by auto
    then show ?thesis using Cons by simp
  qed
  show ?thesis using 1 2 3 5 6 by blast
qed

subsection \<open>Digits, groups and \<^verbatim>\<open>int()\<close>\<close>

lemma digit_val_le: "digit_val c = Some v \<Longrightarrow> v \<le> 9"
  by (auto simp: digit_val_def find_Some_iff split: option.splits)

lemma spaces_not_digits: "list_all (\<lambda>c. \<not> is_digit c) space_chars"
  by (simp add: space_chars_def is_digit_def digit_val_def digit_zeros_def)

lemma space_not_digit: "is_space c \<Longrightarrow> \<not> is_digit c"
  using spaces_not_digits by (simp add: is_space_def list_all_iff)

lemma int_space_is_space: "is_int_space c \<Longrightarrow> is_space c"
  by (auto simp: is_int_space_def int_space_chars_def is_space_def space_chars_def)

lemma int_space_not_digit: "is_int_space c \<Longrightarrow> \<not> is_digit c"
  using int_space_is_space space_not_digit by blast

lemma underscore_not_digit: "\<not> is_digit 95"
  by (simp add: is_digit_def digit_val_def digit_zeros_def)

lemma sign_not_digit: "\<not> is_digit 43" "\<not> is_digit 45"
  by (simp_all add: is_digit_def digit_val_def digit_zeros_def)

lemma run_le: "run c xs \<le> length xs"
  by (simp add: run_def length_takeWhile_le)

lemma take_run: "k \<le> run c xs \<Longrightarrow> x \<in> set (take k xs) \<Longrightarrow> in_cls c x"
proof -
  assume k: "k \<le> run c xs" and x: "x \<in> set (take k xs)"
  have "take k xs = take k (takeWhile (in_cls c) xs)"
    using k unfolding run_def
    by (metis append_eq_conv_conj min.absorb2 take_take takeWhile_dropWhile_id take_append
          diff_is_0_eq take_0 append_Nil2 min.commute)
  then have "x \<in> set (takeWhile (in_cls c) xs)" using x by (metis in_set_takeD)
  then show ?thesis by (rule set_takeWhileD[THEN conjunct2])
qed

lemma rmatch_Rep_iff:
  "(g, r) \<in> set (rmatch (Rep c m n) xs) \<longleftrightarrow>
     g = [] \<and> (\<exists>k. m \<le> k \<and> k \<le> n \<and> k \<le> run c xs \<and> r = drop k xs)"
  by (force simp del: upt_Suc simp: less_Suc_eq_le)

lemma rmatch_groups:
  "digit_groups r \<Longrightarrow> (gs, rest) \<in> set (rmatch r xs) \<Longrightarrow> list_all short_number gs"
proof (induction r arbitrary: gs rest xs)
  case (Grp a)
  then obtain m n where a: "a = Rep Digit m n" "1 \<le> m" "n \<le> 2" by auto
  from Grp.prems(2) have "\<exists>g. (g, rest) \<in> set (rmatch a xs) \<and> gs = take (length xs - length rest) xs # g"
    by auto
  then obtain k where k: "m \<le> k" "k \<le> n" "k \<le> run Digit xs"
     "gs = [take (length xs - length (drop k xs)) xs]"
    unfolding a rmatch_Rep_iff by blast
  have kl: "k \<le> length xs" using k(3) run_le[of Digit xs] by simp
  then have "gs = [take k xs]" using k(4) by simp
  moreover have "list_all is_digit (take k xs)"
    using take_run[OF k(3)] by (auto simp: list_all_iff)
  ultimately show ?case using k a kl by (auto simp: short_number_def)
next
  case (Cat a b)
  then show ?case by (auto simp: list_all_iff)
qed (auto split: list.splits if_splits)

lemma rmatch_ngroups:
  "digit_groups r \<Longrightarrow> (gs, rest) \<in> set (rmatch r xs) \<Longrightarrow> length gs = ngroups r"
proof (induction r arbitrary: gs rest xs)
  case (Grp a)
  then obtain m n where a: "a = Rep Digit m n" by auto
  from Grp.prems(2) show ?case unfolding a by (auto simp del: upt_Suc)
next
  case (Cat a b)
  then show ?case by fastforce
qed (auto split: list.splits if_splits simp del: upt_Suc)

lemma re_search_rmatch:
  "re_search r xs = Some gs \<Longrightarrow> \<exists>ys rest. (gs, rest) \<in> set (rmatch r ys)"
proof (induction xs)
  case Nil
  show ?case
  proof (cases "rmatch r []")
    case Nil
    with \<open>re_search r [] = Some gs\<close> show ?thesis by simp
  next
    case (Cons a list)
    obtain g b where a: "a = (g, b)" by (cases a)
    have "gs = g" using \<open>re_search r [] = Some gs\<close> Cons a by simp
    then have "(gs, b) \<in> set (rmatch r [])" using Cons a by simp
    then show ?thesis by blast
  qed
next
  case (Cons x xs)
  show ?case
  proof (cases "rmatch r (x # xs)")
    case Nil
    with Cons show ?thesis by simp
  next
    case (Cons a list)
    obtain g b where a: "a = (g, b)" by (cases a)
    have "gs = g" using Cons.prems Cons a by simp
    then have "(gs, b) \<in> set (rmatch r (x # xs))" using Cons a by simp
    then show ?thesis by blast
  qed
qed

lemma first_match_in: "first_match ps s = Some gs \<Longrightarrow> \<exists>p\<in>set ps. re_search p s = Some gs"
  by (induction ps) (auto split: option.splits)

lemma patterns_digit_groups: "\<forall>p\<in>set patterns. digit_groups p"
  by (simp add: patterns_def pat_sxxexx_def pat_season_episode_def pat_nxm_def pat_cjk_def pat_see_def d12_def word_def)

lemma patterns_ngroups: "\<forall>p\<in>set patterns. ngroups p = 2"
  by (simp add: patterns_def pat_sxxexx_def pat_season_episode_def pat_nxm_def pat_cjk_def pat_see_def d12_def word_def)

lemma episode_patterns_ngroups: "\<forall>p\<in>set episode_patterns. ngroups p = 1"
  by (simp add: episode_patterns_def pat_e_def pat_episode_def pat_cjk_episode_def pat_bare_def d12_def word_def)


lemma episode_patterns_digit_groups: "\<forall>p\<in>set episode_patterns. digit_groups p"
  by (simp add: episode_patterns_def pat_e_def pat_episode_def pat_cjk_episode_def pat_bare_def d12_def word_def)

lemma short_number_cases:
  assumes "short_number g"
  obtains c where "g = [c]" "is_digit c" | c d where "g = [c, d]" "is_digit c" "is_digit d"
proof (cases g)
  case Nil
  with assms show ?thesis by (simp add: short_number_def)
next
  case (Cons c r)
  show ?thesis
  proof (cases r)
    case Nil
    with Cons assms that(1) show ?thesis by (simp add: short_number_def)
  next
    case (Cons d r')
    with \<open>g = c # r\<close> assms that(2) show ?thesis by (simp add: short_number_def)
  qed
qed

lemma strip_digits: "short_number g \<Longrightarrow> strip g = g"
  by (erule short_number_cases) (auto simp: strip_def dest: int_space_not_digit)

lemma digit_val_int: "0 \<le> int (case digit_val c of None \<Rightarrow> 0 | Some v \<Rightarrow> v) \<and>
    int (case digit_val c of None \<Rightarrow> 0 | Some v \<Rightarrow> v) \<le> 9"
  by (auto split: option.splits dest: digit_val_le)

lemma digits_value_bounds: "short_number g \<Longrightarrow> 0 \<le> digits_value g \<and> digits_value g \<le> 99"
proof (erule short_number_cases)
  fix c assume "g = [c]"
  then show ?thesis using digit_val_int[of c] by (simp add: digits_value_def)
next
  fix c d assume "g = [c, d]"
  then show ?thesis using digit_val_int[of c] digit_val_int[of d] by (simp add: digits_value_def)
qed

lemma int_body_ok_digits: "short_number g \<Longrightarrow> int_body_ok g \<and> filter (\<lambda>c. c \<noteq> 95) g = g"
  using underscore_not_digit by (erule_tac short_number_cases) auto

lemma py_int_short_number:
  assumes "short_number g"
  shows "py_int g = Inr (digits_value g) \<and> 0 \<le> digits_value g \<and> digits_value g \<le> 99"
proof -
  have "\<exists>c r. g = c # r \<and> is_digit c"
    using assms by (rule short_number_cases) auto
  then obtain c r where g: "g = c # r" "is_digit c" by blast
  then have c: "c \<noteq> 43" "c \<noteq> 45" using sign_not_digit by auto
  show ?thesis
    using strip_digits[OF assms] int_body_ok_digits[OF assms] digits_value_bounds[OF assms] g c
    by (simp add: py_int_def)
qed


lemma first_match_groups:
  assumes "first_match ps s = Some gs" "\<forall>p\<in>set ps. digit_groups p" "\<forall>p\<in>set ps. ngroups p = n"
  shows "length gs = n \<and> list_all short_number gs"
proof -
  from assms(1) obtain p where p: "p \<in> set ps" "re_search p s = Some gs"
    using first_match_in by blast
  then obtain ys rest where m: "(gs, rest) \<in> set (rmatch p ys)"
    using re_search_rmatch by blast
  show ?thesis
    using rmatch_groups[OF _ m] rmatch_ngroups[OF _ m] assms(2,3) p(1) by simp
qed

lemma int_group_short:
  assumes "list_all short_number gs" "1 \<le> i" "i \<le> length gs"
  shows "\<exists>v. int_group gs i = Inr v \<and> 0 \<le> v \<and> v \<le> 99"
proof -
  have "short_number (gs ! (i - 1))" using assms by (simp add: list_all_length)
  then show ?thesis using assms py_int_short_number by (simp add: int_group_def group_def)
qed


text \<open>
  Claim C9, as amended. \<^verbatim>\<open>parse_filename\<close> never raises; when it returns a coordinate,
  the episode is an integer between 0 and 99 (0 included: nothing in the parser rejects
  it), and the season is either an integer between 0 and 99 read from the name or the
  known season exactly as the caller passed it.
\<close>

theorem parse_filename_range:
  "\<exists>r. parse_filename p k = Inr r \<and>
       (\<forall>s e. r = Some (s, e) \<longrightarrow> 0 \<le> e \<and> e \<le> 99 \<and> (0 \<le> s \<and> s \<le> 99 \<or> k = Some s))"
proof -
  obtain b where b: "basename p = Inr b"
    using basename_total by blast
  show ?thesis
  proof (cases "first_match patterns b")
    case (Some gs)
    then have g: "length gs = 2" "list_all short_number gs"
      using first_match_groups[OF Some patterns_digit_groups patterns_ngroups] by auto
    obtain v1 where v1: "int_group gs 1 = Inr v1" "0 \<le> v1" "v1 \<le> 99"
      using int_group_short[OF g(2), of 1] g(1) by auto
    obtain v2 where v2: "int_group gs 2 = Inr v2" "0 \<le> v2" "v2 \<le> 99"
      using int_group_short[OF g(2), of 2] g(1) by auto
    show ?thesis using b Some v1 v2 by (simp add: parse_filename_def)
  next
    case None
    note first = None
    show ?thesis
    proof (cases k)
      case None
      then show ?thesis using b first by (simp add: parse_filename_def)
    next
      case (Some ks)
      show ?thesis
      proof (cases "first_match episode_patterns b")
        case None
        then show ?thesis using b first Some by (simp add: parse_filename_def)
      next
        case (Some gs)
        then have g: "length gs = 1" "list_all short_number gs"
          using first_match_groups[OF Some episode_patterns_digit_groups episode_patterns_ngroups]
          by auto
        obtain v where v: "int_group gs 1 = Inr v" "0 \<le> v" "v \<le> 99"
          using int_group_short[OF g(2), of 1] g(1) by auto
        show ?thesis using b first \<open>k = Some ks\<close> Some v by (simp add: parse_filename_def)
      qed
    qed
  qed
qed

lemmas parse_eval = parse_filename_def basename_def py_last_def str_of_def patterns_def
  episode_patterns_def pat_sxxexx_def pat_season_episode_def pat_nxm_def pat_cjk_def pat_see_def
  pat_e_def pat_episode_def pat_cjk_episode_def pat_bare_def d12_def word_def group_def
  int_group_def py_int_def strip_def digits_value_def is_digit_def digit_val_def digit_zeros_def
  is_space_def space_chars_def is_int_space_def int_space_chars_def run_def ic_chars_def

theorem parse_filename_range_witness:
  "parse_filename (str_of ''Show.S01E02.mkv'') None = Inr (Some (1, 2)) \<and>
   (0::int) \<le> 2 \<and> (2::int) \<le> 99 \<and> (0::int) \<le> 1 \<and> (1::int) \<le> 99"
proof -
  have e: "parse_filename (str_of ''Show.S01E02.mkv'') None = Inr (Some (1, 2))"
    by (simp add: parse_eval)
  from parse_filename_range[of "str_of ''Show.S01E02.mkv''" None] e show ?thesis by simp
qed

text \<open>
  Claim C9 as stated fails: the name \<^verbatim>\<open>S01E00.mkv\<close> parses to episode 0, and a negative
  known season comes back unchanged.
\<close>

theorem parse_filename_zero_episode:
  "parse_filename (str_of ''S01E00.mkv'') None = Inr (Some (1, 0)) \<and>
   parse_filename (str_of ''E05.mkv'') (Some (- 2)) = Inr (Some (- 2, 5))"
  by (simp add: parse_eval)

subsection \<open>The first pattern\<close>

lemma digit_val_ascii: "d < 10 \<Longrightarrow> digit_val (48 + d) = Some d"
  by (simp add: digit_val_def digit_zeros_def)

lemma is_digit_ascii: "d < 10 \<Longrightarrow> is_digit (48 + d)"
  by (simp add: is_digit_def digit_val_ascii)

lemma dec_nat_small: "n < 10 \<Longrightarrow> dec_nat n = [48 + n]"
  by (simp add: dec_nat.simps)

lemma dec_nat_two: "10 \<le> n \<Longrightarrow> n \<le> 99 \<Longrightarrow> dec_nat n = [48 + n div 10, 48 + n mod 10]"
  by (subst dec_nat.simps) (simp add: dec_nat_small)

lemma py_str_number:
  assumes "0 \<le> n" "n \<le> 99"
  shows "short_number (py_str n) \<and> digits_value (py_str n) = n"
proof (cases "n < 10")
  case True
  then show ?thesis using assms
    by (simp add: py_str_def dec_nat_small short_number_def is_digit_ascii digits_value_def digit_val_ascii)
next
  case False
  then have "dec_nat (nat n) = [48 + nat n div 10, 48 + nat n mod 10]"
    using assms by (intro dec_nat_two) auto
  moreover have "nat n div 10 < 10" using assms by auto
  moreover have "10 * int (nat n div 10) + int (nat n mod 10) = n"
    using assms by (simp add: zdiv_int zmod_int)
  ultimately show ?thesis using assms
    by (simp add: py_str_def short_number_def is_digit_ascii digits_value_def digit_val_ascii)
qed

lemma fmt_02d_number:
  assumes "0 \<le> n" "n \<le> 99"
  shows "short_number (fmt_02d n) \<and> digits_value (fmt_02d n) = n \<and> length (fmt_02d n) = 2"
proof (cases "n < 10")
  case True
  then show ?thesis using assms is_digit_ascii[of 0] digit_val_ascii[of 0]
    by (simp add: fmt_02d_def py_str_def dec_nat_small short_number_def is_digit_ascii digits_value_def digit_val_ascii)
next
  case False
  then have "dec_nat (nat n) = [48 + nat n div 10, 48 + nat n mod 10]"
    using assms by (intro dec_nat_two) auto
  then show ?thesis using py_str_number[OF assms] False assms
    by (simp add: fmt_02d_def py_str_def)
qed

lemma s_char_iff: "s_char c \<longleftrightarrow> c = 83 \<or> c = 115 \<or> c = 383"
  by (auto simp: s_char_def ic_chars_def)

lemma e_char_iff: "e_char c \<longleftrightarrow> c = 69 \<or> c = 101"
  by (auto simp: e_char_def ic_chars_def)

lemma letters_not_digits:
  "\<not> is_digit 83" "\<not> is_digit 115" "\<not> is_digit 383" "\<not> is_digit 69" "\<not> is_digit 101"
  by (simp_all add: is_digit_def digit_val_def digit_zeros_def)

lemma s_char_not_digit: "s_char c \<Longrightarrow> \<not> is_digit c"
  using letters_not_digits unfolding s_char_iff by blast

lemma e_char_not_digit: "e_char c \<Longrightarrow> \<not> is_digit c"
  using letters_not_digits unfolding e_char_iff by blast

lemma run_Nil [simp]: "run c [] = 0" by (simp add: run_def)
lemma run_Cons: "run c (x # xs) = (if in_cls c x then Suc (run c xs) else 0)"
  by (simp add: run_def)

lemma run_append_stop: "\<not> in_cls c t \<Longrightarrow> run c (xs @ t # ts) = run c xs"
  by (induction xs) (auto simp: run_Cons)

lemma rmatch_Chr_iff:
  "(g, r) \<in> set (rmatch (Chr c) xs) \<longleftrightarrow> g = [] \<and> (\<exists>x. xs = x # r \<and> in_cls c x)"
  by (auto split: list.splits)

lemma rmatch_Cat_iff:
  "(gs, r) \<in> set (rmatch (Cat a b) xs) \<longleftrightarrow>
     (\<exists>g h mid. (g, mid) \<in> set (rmatch a xs) \<and> (h, r) \<in> set (rmatch b mid) \<and> gs = g @ h)"
  by (auto 4 4)

lemma rmatch_Grp_iff:
  "(gs, r) \<in> set (rmatch (Grp a) xs) \<longleftrightarrow>
     (\<exists>g. (g, r) \<in> set (rmatch a xs) \<and> gs = take (length xs - length r) xs # g)"
  by auto

lemma d12_iff:
  "(gs, r) \<in> set (rmatch d12 xs) \<longleftrightarrow>
     (\<exists>k. 1 \<le> k \<and> k \<le> 2 \<and> k \<le> run Digit xs \<and> r = drop k xs \<and> gs = [take k xs])"
proof -
  have "k \<le> run Digit xs \<Longrightarrow> length xs - (length xs - k) = k" for k
    using run_le[of Digit xs] by simp
  then show ?thesis
    unfolding d12_def rmatch_Grp_iff rmatch_Rep_iff by auto
qed

lemma sxxexx_iff:
  "(gs, rest) \<in> set (rmatch pat_sxxexx ys) \<longleftrightarrow>
     (\<exists>c r k e r2 k2. ys = c # r \<and> s_char c \<and> 1 \<le> k \<and> k \<le> 2 \<and> k \<le> run Digit r \<and>
        drop k r = e # r2 \<and> e_char e \<and> 1 \<le> k2 \<and> k2 \<le> 2 \<and> k2 \<le> run Digit r2 \<and>
        rest = drop k2 r2 \<and> gs = [take k r, take k2 r2])"
  (is "?L \<longleftrightarrow> ?R")
proof
  assume ?L
  then obtain g1 h1 r where 1: "(g1, r) \<in> set (rmatch (Chr (Bracket [Lit 115, Lit 83])) ys)"
      and 2: "(h1, rest) \<in> set (rmatch (Cat d12 (Cat (Chr (Bracket [Lit 101, Lit 69])) d12)) r)"
      and gs1: "gs = g1 @ h1"
    unfolding pat_sxxexx_def seq.simps by (subst (asm) rmatch_Cat_iff) blast
  from 2 obtain g2 h2 m2 where 3: "(g2, m2) \<in> set (rmatch d12 r)"
      and 4: "(h2, rest) \<in> set (rmatch (Cat (Chr (Bracket [Lit 101, Lit 69])) d12) m2)"
      and gs2: "h1 = g2 @ h2"
    by (subst (asm) rmatch_Cat_iff) blast
  from 4 obtain g3 h3 r2 where 5: "(g3, r2) \<in> set (rmatch (Chr (Bracket [Lit 101, Lit 69])) m2)"
      and 6: "(h3, rest) \<in> set (rmatch d12 r2)"
      and gs3: "h2 = g3 @ h3"
    by (subst (asm) rmatch_Cat_iff) blast
  from 1 obtain c where c: "g1 = []" "ys = c # r" "s_char c"
    unfolding rmatch_Chr_iff s_char_def by blast
  from 3 obtain k where k: "1 \<le> k" "k \<le> 2" "k \<le> run Digit r" "m2 = drop k r" "g2 = [take k r]"
    unfolding d12_iff by blast
  from 5 obtain e where e: "g3 = []" "m2 = e # r2" "e_char e"
    unfolding rmatch_Chr_iff e_char_def by blast
  from 6 obtain k2 where k2: "1 \<le> k2" "k2 \<le> 2" "k2 \<le> run Digit r2" "rest = drop k2 r2"
      "h3 = [take k2 r2]"
    unfolding d12_iff by blast
  have "drop k r = e # r2" using k(4) e(2) by simp
  moreover have "gs = [take k r, take k2 r2]" using gs1 gs2 gs3 c(1) k(5) e(1) k2(5) by simp
  ultimately show ?R using c(2,3) k(1,2,3) e(3) k2(1,2,3,4) by blast
next
  assume ?R
  then obtain c r k e r2 k2 where h:
    "ys = c # r" "in_cls (Bracket [Lit 115, Lit 83]) c" "1 \<le> k" "k \<le> 2" "k \<le> run Digit r"
    "drop k r = e # r2" "in_cls (Bracket [Lit 101, Lit 69]) e" "1 \<le> k2" "k2 \<le> 2"
    "k2 \<le> run Digit r2" "rest = drop k2 r2" "gs = [take k r, take k2 r2]"
    unfolding s_char_def e_char_def by blast
  have 1: "([], r) \<in> set (rmatch (Chr (Bracket [Lit 115, Lit 83])) ys)"
    unfolding rmatch_Chr_iff using h(1,2) by blast
  have 2: "([take k r], e # r2) \<in> set (rmatch d12 r)"
    unfolding d12_iff using h(3,4,5,6) by auto
  have 3: "([], r2) \<in> set (rmatch (Chr (Bracket [Lit 101, Lit 69])) (e # r2))"
    unfolding rmatch_Chr_iff using h(7) by blast
  have 4: "([take k2 r2], rest) \<in> set (rmatch d12 r2)"
    unfolding d12_iff using h(8,9,10,11) by auto
  have 5: "([] @ [take k2 r2], rest) \<in> set (rmatch (Cat (Chr (Bracket [Lit 101, Lit 69])) d12) (e # r2))"
    unfolding rmatch_Cat_iff using 3 4 by blast
  have 6: "([take k r] @ [] @ [take k2 r2], rest) \<in>
      set (rmatch (Cat d12 (Cat (Chr (Bracket [Lit 101, Lit 69])) d12)) r)"
    using 2 5 by (subst rmatch_Cat_iff) blast
  have 7: "([] @ [take k r] @ [] @ [take k2 r2], rest) \<in> set (rmatch pat_sxxexx ys)"
    unfolding pat_sxxexx_def seq.simps using 1 6 by (subst rmatch_Cat_iff) blast
  then show ?L using h(12) by simp
qed

lemma nonempty_iff: "xs \<noteq> [] \<longleftrightarrow> (\<exists>a b. (a, b) \<in> set xs)"
  by (cases xs) auto

lemma sxxexx_here_iff: "rmatch pat_sxxexx ys \<noteq> [] \<longleftrightarrow> sxxexx_here ys"
proof
  assume "rmatch pat_sxxexx ys \<noteq> []"
  then obtain gs rest where "(gs, rest) \<in> set (rmatch pat_sxxexx ys)"
    unfolding nonempty_iff by blast
  then show "sxxexx_here ys" unfolding sxxexx_iff sxxexx_here_def by fastforce
next
  assume "sxxexx_here ys"
  then obtain c r k e r2 where h: "ys = c # r" "s_char c" "1 \<le> k" "k \<le> 2" "k \<le> run Digit r"
       "drop k r = e # r2" "e_char e" "1 \<le> run Digit r2"
    unfolding sxxexx_here_def by blast
  have "([take k r, take 1 r2], drop 1 r2) \<in> set (rmatch pat_sxxexx ys)"
    unfolding sxxexx_iff using h by (intro exI[of _ c] exI[of _ r] exI[of _ k] exI[of _ e] exI[of _ r2] exI[of _ 1]) simp
  then show "rmatch pat_sxxexx ys \<noteq> []" by auto
qed

lemma sxxexx_here_extend:
  assumes "sxxexx_here (x # xs @ t # ts)" "\<not> is_digit t" "\<not> e_char t"
  shows "sxxexx_here (x # xs)"
proof -
  from assms(1) obtain k e r2 where h: "s_char x" "1 \<le> k" "k \<le> 2" "k \<le> run Digit (xs @ t # ts)"
       "drop k (xs @ t # ts) = e # r2" "e_char e" "1 \<le> run Digit r2"
    unfolding sxxexx_here_def by auto
  have r: "run Digit (xs @ t # ts) = run Digit xs"
    using assms(2) by (simp add: run_append_stop)
  then have kl: "k \<le> length xs" using h(4) run_le[of Digit xs] by simp
  then have d: "drop k xs @ t # ts = e # r2" using h(5) by simp
  have "drop k xs \<noteq> []" using d h(6) assms(3) by (cases "drop k xs") auto
  then obtain r2' where r2': "drop k xs = e # r2'" "r2 = r2' @ t # ts"
    using d by (cases "drop k xs") auto
  have "run Digit r2' = run Digit r2" using r2'(2) assms(2) by (simp add: run_append_stop)
  then show ?thesis
    unfolding sxxexx_here_def using h r r2' by auto
qed

lemma re_search_skip:
  assumes "re_search pat_sxxexx pre = None" "\<not> is_digit t" "\<not> e_char t"
  shows "re_search pat_sxxexx (pre @ t # ts) = re_search pat_sxxexx (t # ts)"
  using assms(1)
proof (induction pre)
  case Nil
  then show ?case by simp
next
  case (Cons x xs)
  from Cons.prems have 1: "rmatch pat_sxxexx (x # xs) = []" and 2: "re_search pat_sxxexx xs = None"
    by (auto split: list.splits)
  have "\<not> sxxexx_here (x # xs @ t # ts)"
    using 1 sxxexx_here_extend[OF _ assms(2,3)] sxxexx_here_iff by blast
  then have "rmatch pat_sxxexx (x # xs @ t # ts) = []" using sxxexx_here_iff by blast
  then show ?case using Cons.IH[OF 2] by simp
qed

lemma rmatch_token:
  assumes "s_char sc" "e_char ec" "short_number ds" "short_number de"
    and "length de = 2 \<or> (case post of [] \<Rightarrow> True | c # _ \<Rightarrow> \<not> is_digit c)"
  shows "\<exists>rs. rmatch pat_sxxexx (sc # ds @ ec # de @ post) = ([ds, de], post) # rs"
proof -
  note [simp] = pat_sxxexx_def d12_def run_Cons s_char_def[symmetric] e_char_def[symmetric]
    e_char_not_digit[OF assms(2)] assms(1,2)
  note [simp del] = in_cls.simps(1,5)
  from assms(3) show ?thesis
  proof (cases rule: short_number_cases)
    case (1 a)
    from assms(4) show ?thesis
    proof (cases rule: short_number_cases)
      case (1 c)
      with \<open>ds = [a]\<close> \<open>is_digit a\<close> assms(5) show ?thesis
        by (cases post) (simp_all)
    next
      case (2 c d)
      with \<open>ds = [a]\<close> \<open>is_digit a\<close> show ?thesis
        by simp
    qed
  next
    case (2 a b)
    from assms(4) show ?thesis
    proof (cases rule: short_number_cases)
      case (1 c)
      with 2 assms(5) show ?thesis
        by (cases post) (simp_all)
    next
      case (2 c d)
      with \<open>ds = [a, b]\<close> \<open>is_digit a\<close> \<open>is_digit b\<close> show ?thesis
        by simp
    qed
  qed
qed

lemma re_search_token:
  assumes "s_char sc" "e_char ec" "short_number ds" "short_number de"
    and "length de = 2 \<or> (case post of [] \<Rightarrow> True | c # _ \<Rightarrow> \<not> is_digit c)"
    and "re_search pat_sxxexx pre = None"
  shows "re_search pat_sxxexx (pre @ sc # ds @ ec # de @ post) = Some [ds, de]"
proof -
  have "\<not> e_char sc" using assms(1) by (auto simp: s_char_iff e_char_iff)
  then have "re_search pat_sxxexx (pre @ sc # ds @ ec # de @ post) =
      re_search pat_sxxexx (sc # ds @ ec # de @ post)"
    using re_search_skip[OF assms(6) s_char_not_digit[OF assms(1)]] by simp
  moreover obtain rs where "rmatch pat_sxxexx (sc # ds @ ec # de @ post) = ([ds, de], post) # rs"
    using rmatch_token[OF assms(1-5)] by blast
  ultimately show ?thesis by simp
qed

text \<open>
  Claim C1, as amended. Let the final path component be \<open>pre @ token @ post\<close>, where the
  token is \<^verbatim>\<open>S\<close> or \<^verbatim>\<open>s\<close>, the season, \<^verbatim>\<open>E\<close> or \<^verbatim>\<open>e\<close>, the episode, both numbers in
  [1,99] and written either zero-padded to two digits or plainly; an episode written with
  one digit is not followed by a digit. If no match of the first pattern starts inside
  \<open>pre\<close> (the token is the leftmost \<^verbatim>\<open>S..E..\<close> token of the file name), then
  \<^verbatim>\<open>parse_filename\<close> returns exactly (season, episode), whatever else surrounds the token
  and whatever season the caller knows.
\<close>

theorem parse_filename_sxxexx:
  assumes "1 \<le> s" "s \<le> 99" "1 \<le> e" "e \<le> 99"
    and "sc = 83 \<or> sc = 115" "ec = 69 \<or> ec = 101"
    and "ds = fmt_02d s \<or> ds = py_str s"
    and "de = fmt_02d e \<or> de = py_str e \<and> (case post of [] \<Rightarrow> True | c # _ \<Rightarrow> \<not> is_digit c)"
    and "basename p = Inr (pre @ sc # ds @ ec # de @ post)"
    and "re_search pat_sxxexx pre = None"
  shows "parse_filename p k = Inr (Some (s, e))"
proof -
  have s: "0 \<le> s" "0 \<le> e" using assms(1,3) by simp_all
  have ds: "short_number ds" "digits_value ds = s"
    using assms(7) py_str_number[OF s(1) assms(2)] fmt_02d_number[OF s(1) assms(2)] by auto
  have de: "short_number de" "digits_value de = e"
    using assms(8) py_str_number[OF s(2) assms(4)] fmt_02d_number[OF s(2) assms(4)] by auto
  have len: "length de = 2 \<or> (case post of [] \<Rightarrow> True | c # _ \<Rightarrow> \<not> is_digit c)"
    using assms(8) fmt_02d_number[OF s(2) assms(4)] by auto
  have sc: "s_char sc" and ec: "e_char ec"
    using assms(5,6) by (auto simp: s_char_iff e_char_iff)
  have "re_search pat_sxxexx (pre @ sc # ds @ ec # de @ post) = Some [ds, de]"
    by (rule re_search_token[OF sc ec ds(1) de(1) len assms(10)])
  then have m: "first_match patterns (pre @ sc # ds @ ec # de @ post) = Some [ds, de]"
    by (simp add: patterns_def)
  have "int_group [ds, de] 1 = Inr s" "int_group [ds, de] 2 = Inr e"
    using py_int_short_number[OF ds(1)] py_int_short_number[OF de(1)] ds(2) de(2)
    by (simp_all add: int_group_def group_def)
  then show ?thesis using assms(9) m by (simp add: parse_filename_def)
qed

lemmas token_eval = sxxexx_token_def fmt_02d_def py_str_def dec_nat_small

theorem parse_filename_sxxexx_witness:
  "re_search pat_sxxexx (str_of ''Show.'') = None \<and>
   basename (str_of ''tv/Show.'' @ 83 # fmt_02d 1 @ 69 # fmt_02d 2 @ str_of ''.mkv'') =
     Inr (str_of ''Show.'' @ 83 # fmt_02d 1 @ 69 # fmt_02d 2 @ str_of ''.mkv'') \<and>
   parse_filename (str_of ''tv/Show.'' @ 83 # fmt_02d 1 @ 69 # fmt_02d 2 @ str_of ''.mkv'') None =
     Inr (Some (1, 2))"
proof -
  have 1: "re_search pat_sxxexx (str_of ''Show.'') = None"
    by (simp add: parse_eval)
  have 2: "basename (str_of ''tv/Show.'' @ 83 # fmt_02d 1 @ 69 # fmt_02d 2 @ str_of ''.mkv'') =
     Inr (str_of ''Show.'' @ 83 # fmt_02d 1 @ 69 # fmt_02d 2 @ str_of ''.mkv'')"
    by (simp add: basename_def py_last_def str_of_def token_eval)
  have 3: "parse_filename (str_of ''tv/Show.'' @ 83 # fmt_02d 1 @ 69 # fmt_02d 2 @ str_of ''.mkv'')
      None = Inr (Some (1, 2))"
    by (rule parse_filename_sxxexx[where sc = 83 and ec = 69 and ds = "fmt_02d 1"
          and de = "fmt_02d 2" and pre = "str_of ''Show.''" and post = "str_of ''.mkv''"])
       (simp_all add: 1 2)
  show ?thesis using 1 2 3 by simp
qed

text \<open>
  Claim C1 as stated fails: the name \<^verbatim>\<open>S01E01-S01E02.mkv\<close> holds the valid token
  \<^verbatim>\<open>S01E02\<close>, and the parser returns (1, 1), the pair of the token further left.
\<close>

theorem parse_filename_second_token:
  "parse_filename (str_of ''S01E01-'' @ sxxexx_token 1 2 @ str_of ''.mkv'') None =
     Inr (Some (1, 1))"
  by (simp add: parse_eval token_eval)


subsection \<open>Diff engine\<close>

lemma missing_loop_lookup:
  "distinct (map fst ts) \<Longrightarrow>
   missing_loop ts loc m s =
     (case map_of ts s of
        None \<Rightarrow> m s
      | Some eps \<Rightarrow> if set eps \<subseteq> local_get loc s then m s
                    else Some (sorted_list_of_set (set eps - local_get loc s)))"
proof (induction ts arbitrary: m)
  case Nil
  then show ?case by simp
next
  case (Cons a ts)
  obtain season eps where a: "a = (season, eps)" by (cases a)
  have d: "distinct (map fst ts)" and n: "season \<notin> fst ` set ts" using Cons.prems a by auto
  have none: "map_of ts season = None" using n by (simp add: map_of_eq_None_iff)
  show ?case
    unfolding a using Cons.IH[OF d] none
    by (auto simp: Let_def split: option.splits)
qed

text \<open>
  Claim C2. For a local inventory and a canonical structure (a dictionary: distinct
  seasons), the missing set is empty exactly when every canonical season's episodes are
  all in the local inventory (an absent local season counting as empty); a canonical
  season that the inventory holds with the episode set \<open>X\<close> appears in the result with the
  set difference canonical minus \<open>X\<close>, sorted ascending and without repetition, unless that
  difference is empty, in which case the season is omitted; a season absent from the
  local inventory contributes all its canonical episodes; seasons only in the local
  inventory do not appear.
\<close>

theorem compute_missing_diff:
  assumes "distinct (map fst canonical)"
  shows "(compute_missing loc canonical = Map.empty \<longleftrightarrow>
           (\<forall>(s, eps) \<in> set canonical. set eps \<subseteq> (case loc s of None \<Rightarrow> {} | Some X \<Rightarrow> X))) \<and>
         (\<forall>s eps X. map_of canonical s = Some eps \<and> loc s = Some X \<longrightarrow>
            compute_missing loc canonical s =
              (if set eps \<subseteq> X then None else Some (sorted_list_of_set (set eps - X)))) \<and>
         (\<forall>s eps. map_of canonical s = Some eps \<and> loc s = None \<longrightarrow>
            compute_missing loc canonical s =
              (if eps = [] then None else Some (sorted_list_of_set (set eps)))) \<and>
         (\<forall>s l. compute_missing loc canonical s = Some l \<longrightarrow>
            l \<noteq> [] \<and> sorted l \<and> distinct l \<and>
            (\<exists>eps. map_of canonical s = Some eps \<and>
               set l = set eps - (case loc s of None \<Rightarrow> {} | Some X \<Rightarrow> X))) \<and>
         (\<forall>s eps. map_of canonical s = Some eps \<and> loc s = None \<and> eps \<noteq> [] \<longrightarrow>
            (\<exists>l. compute_missing loc canonical s = Some l \<and> set l = set eps \<and>
                 (sorted eps \<and> distinct eps \<longrightarrow> l = eps))) \<and>
         (\<forall>s. map_of canonical s = None \<longrightarrow> compute_missing loc canonical s = None)"
proof -
  have look: "compute_missing loc canonical s =
           (case map_of canonical s of
              None \<Rightarrow> None
            | Some eps \<Rightarrow>
                if set eps \<subseteq> (case loc s of None \<Rightarrow> {} | Some X \<Rightarrow> X) then None
                else Some (sorted_list_of_set (set eps - (case loc s of None \<Rightarrow> {} | Some X \<Rightarrow> X))))"
    for s
    unfolding compute_missing_def missing_loop_lookup[OF assms] local_get_def by simp
  have 1: "compute_missing loc canonical = Map.empty \<longleftrightarrow>
           (\<forall>(s, eps) \<in> set canonical. set eps \<subseteq> (case loc s of None \<Rightarrow> {} | Some X \<Rightarrow> X))"
  proof
    assume e: "compute_missing loc canonical = Map.empty"
    show "\<forall>(s, eps) \<in> set canonical. set eps \<subseteq> (case loc s of None \<Rightarrow> {} | Some X \<Rightarrow> X)"
    proof (clarify)
      fix s eps x assume m: "(s, eps) \<in> set canonical" and x: "x \<in> set eps"
      have "map_of canonical s = Some eps" using assms m by simp
      moreover have "compute_missing loc canonical s = None" using e by simp
      ultimately have "set eps \<subseteq> (case loc s of None \<Rightarrow> {} | Some X \<Rightarrow> X)"
        using look[of s] by (simp split: if_splits)
      then show "x \<in> (case loc s of None \<Rightarrow> {} | Some X \<Rightarrow> X)" using x by blast
    qed
  next
    assume a: "\<forall>(s, eps) \<in> set canonical. set eps \<subseteq> (case loc s of None \<Rightarrow> {} | Some X \<Rightarrow> X)"
    show "compute_missing loc canonical = Map.empty"
    proof
      fix s
      show "compute_missing loc canonical s = None"
      proof (cases "map_of canonical s")
        case None
        then show ?thesis using look[of s] by simp
      next
        case (Some eps)
        then have "(s, eps) \<in> set canonical" by (rule map_of_SomeD)
        then have "set eps \<subseteq> (case loc s of None \<Rightarrow> {} | Some X \<Rightarrow> X)" using a by blast
        then show ?thesis using look[of s] Some by simp
      qed
    qed
  qed
  have 2: "compute_missing loc canonical s =
              (if set eps \<subseteq> X then None else Some (sorted_list_of_set (set eps - X)))"
    if "map_of canonical s = Some eps \<and> loc s = Some X" for s eps X
    using look[of s] that by simp
  have 6: "compute_missing loc canonical s =
              (if eps = [] then None else Some (sorted_list_of_set (set eps)))"
    if "map_of canonical s = Some eps \<and> loc s = None" for s eps
    using look[of s] that by simp
  have 3: "l \<noteq> [] \<and> sorted l \<and> distinct l \<and>
            (\<exists>eps. map_of canonical s = Some eps \<and>
               set l = set eps - (case loc s of None \<Rightarrow> {} | Some X \<Rightarrow> X))"
    if "compute_missing loc canonical s = Some l" for s l
  proof -
    let ?X = "case loc s of None \<Rightarrow> {} | Some X \<Rightarrow> X"
    from that look[of s] obtain eps where eps: "map_of canonical s = Some eps"
        "\<not> set eps \<subseteq> ?X" "l = sorted_list_of_set (set eps - ?X)"
      by (auto split: option.splits if_splits)
    have fin: "finite (set eps - ?X)" by simp
    have "set l = set eps - ?X" using eps(3) fin by simp
    moreover have "l \<noteq> []" using calculation eps(2) by auto
    ultimately show ?thesis using eps(1,3) by simp
  qed
  have 4: "\<exists>l. compute_missing loc canonical s = Some l \<and> set l = set eps \<and>
                 (sorted eps \<and> distinct eps \<longrightarrow> l = eps)"
    if "map_of canonical s = Some eps \<and> loc s = None \<and> eps \<noteq> []" for s eps
  proof -
    have "compute_missing loc canonical s = Some (sorted_list_of_set (set eps))"
      using look[of s] that by simp
    moreover have "sorted eps \<and> distinct eps \<longrightarrow> sorted_list_of_set (set eps) = eps"
      by (simp add: sorted_list_of_set.idem_if_sorted_distinct)
    ultimately show ?thesis by simp
  qed
  have 5: "map_of canonical s = None \<longrightarrow> compute_missing loc canonical s = None" for s
    using look[of s] by simp
  show ?thesis using 1 2 6 3 4 5 by blast
qed

theorem compute_missing_diff_witness:
  "distinct (map fst [(1::int, [1, 2, 3, 4::int])]) \<and>
   compute_missing [1 \<mapsto> {1, 2, 3}] [(1, [1, 2, 3, 4])] 1 = Some [4] \<and>
   compute_missing [1 \<mapsto> {1, 2, 3}] [(1, [1, 2, 3, 4])] \<noteq> Map.empty \<and>
   compute_missing [1 \<mapsto> {1, 2, 3, 4}] [(1, [1, 2, 3, 4])] = Map.empty \<and>
   compute_missing [1 \<mapsto> {1}, 2 \<mapsto> {1}] [(1, [1, 2]), (2, [1])] 2 = None \<and>
   compute_missing [1 \<mapsto> {1}, 2 \<mapsto> {1}] [(1, [1, 2]), (2, [1])] 1 = Some [2] \<and>
   compute_missing Map.empty [(1, [1, 2]), (2, [1])] 2 = Some [1]"
proof -
  have d: "distinct (map fst [(1::int, [1, 2, 3, 4::int])])" by simp
  have d2: "distinct (map fst [(1::int, [1, 2::int]), (2, [1])])" by simp
  note A = compute_missing_diff[OF d, of "[1 \<mapsto> {1, 2, 3}]"]
  note B = compute_missing_diff[OF d, of "[1 \<mapsto> {1, 2, 3, 4}]"]
  note C = compute_missing_diff[OF d2, of Map.empty]
  note D = compute_missing_diff[OF d2, of "[1 \<mapsto> {1}, 2 \<mapsto> {1}]"]
  have 1: "compute_missing [1 \<mapsto> {1, 2, 3}] [(1, [1, 2, 3, 4])] 1 = Some [4]"
    using A[THEN conjunct2, THEN conjunct1, rule_format, of 1 "[1, 2, 3, 4]" "{1, 2, 3}"] by simp
  have 2: "compute_missing [1 \<mapsto> {1, 2, 3}] [(1, [1, 2, 3, 4])] \<noteq> Map.empty"
    using A[THEN conjunct1] by simp
  have 3: "compute_missing [1 \<mapsto> {1, 2, 3, 4}] [(1, [1, 2, 3, 4])] = Map.empty"
    using B[THEN conjunct1] by simp
  have 4: "compute_missing [1 \<mapsto> {1}, 2 \<mapsto> {1}] [(1, [1, 2]), (2, [1])] 2 = None"
    using D[THEN conjunct2, THEN conjunct1, rule_format, of 2 "[1]" "{1}"] by simp
  have 5: "compute_missing [1 \<mapsto> {1}, 2 \<mapsto> {1}] [(1, [1, 2]), (2, [1])] 1 = Some [2]"
    using D[THEN conjunct2, THEN conjunct1, rule_format, of 1 "[1, 2]" "{1}"] by simp
  have 6: "compute_missing Map.empty [(1, [1, 2]), (2, [1])] 2 = Some [1]"
    using C[THEN conjunct2, THEN conjunct2, THEN conjunct1, rule_format, of 2 "[1]"] by simp
  show ?thesis using d 1 2 3 4 5 6 by blast
qed

subsection \<open>Cache store\<close>

















subsection \<open>Catalog client\<close>

lemma truthy_year_diff:
  "truthy (show_year s) \<and> \<bar>the (show_year s) - y\<bar> = d \<longleftrightarrow> year_diff y s = Some d"
  by (auto simp: truthy_def year_diff_def split: option.splits)

lemma truthy_iff: "truthy (show_year s) \<longleftrightarrow> (\<exists>d. year_diff y s = Some d)"
  by (auto simp: truthy_def year_diff_def split: option.splits)

lemma closest_loop_spec:
  "if \<exists>s\<in>set rs. \<exists>d. year_diff y s = Some d \<and> d < cd
   then \<exists>w dw. closest_loop y rs bm cd = Some w \<and> year_diff y w = Some dw \<and> dw < cd \<and>
          (\<forall>s\<in>set rs. \<forall>d. year_diff y s = Some d \<longrightarrow> dw \<le> d) \<and>
          find (\<lambda>s. year_diff y s = Some dw) rs = Some w
   else closest_loop y rs bm cd = bm"
proof (induction rs arbitrary: bm cd)
  case Nil
  then show ?case by simp
next
  case (Cons s rs)
  show ?case
  proof (cases "year_diff y s")
    case None
    then have nt: "\<not> truthy (show_year s)" using truthy_iff[of s y] by simp
    show ?thesis using Cons.IH[of cd bm] None nt
      by (auto split: if_splits)
  next
    case (Some d)
    then have t: "truthy (show_year s)" "\<bar>the (show_year s) - y\<bar> = d"
      using truthy_year_diff[of s y d] by auto
    show ?thesis
    proof (cases "d < cd")
      case True
      have step: "closest_loop y (s # rs) bm cd = closest_loop y rs (Some s) d"
        using t True by (simp add: Let_def)
      show ?thesis
      proof (cases "\<exists>s\<in>set rs. \<exists>d'. year_diff y s = Some d' \<and> d' < d")
        case True
        with Cons.IH[of d "Some s"] obtain w dw where w:
          "closest_loop y rs (Some s) d = Some w" "year_diff y w = Some dw" "dw < d"
          "\<forall>s\<in>set rs. \<forall>d. year_diff y s = Some d \<longrightarrow> dw \<le> d"
          "find (\<lambda>s. year_diff y s = Some dw) rs = Some w"
          by auto
        have "find (\<lambda>s. year_diff y s = Some dw) (s # rs) = Some w"
          using w(3,5) Some by simp
        moreover have "\<forall>s'\<in>set (s # rs). \<forall>d. year_diff y s' = Some d \<longrightarrow> dw \<le> d"
          using w(3,4) Some by auto
        moreover have "dw < cd" using w(3) \<open>d < cd\<close> by simp
        ultimately show ?thesis using step w(1,2) \<open>d < cd\<close> Some by auto
      next
        case False
        with Cons.IH[of d "Some s"] have r: "closest_loop y rs (Some s) d = Some s" by auto
        have "\<forall>s'\<in>set (s # rs). \<forall>d'. year_diff y s' = Some d' \<longrightarrow> d \<le> d'"
          using False Some by (auto simp: not_less)
        then show ?thesis using step r Some \<open>d < cd\<close> by auto
      qed
    next
      case False
      have step: "closest_loop y (s # rs) bm cd = closest_loop y rs bm cd"
        using t False by (simp add: Let_def)
      show ?thesis
      proof (cases "\<exists>s\<in>set rs. \<exists>d'. year_diff y s = Some d' \<and> d' < cd")
        case True
        with Cons.IH[of cd bm] obtain w dw where w:
          "closest_loop y rs bm cd = Some w" "year_diff y w = Some dw" "dw < cd"
          "\<forall>s\<in>set rs. \<forall>d. year_diff y s = Some d \<longrightarrow> dw \<le> d"
          "find (\<lambda>s. year_diff y s = Some dw) rs = Some w"
          by auto
        have "find (\<lambda>s. year_diff y s = Some dw) (s # rs) = Some w"
          using w(3,5) Some False by auto
        moreover have "\<forall>s'\<in>set (s # rs). \<forall>d. year_diff y s' = Some d \<longrightarrow> dw \<le> d"
          using w(3,4) Some False by auto
        ultimately show ?thesis using step w(1,2,3) True by auto
      next
        case no: False
        with Cons.IH[of cd bm] have "closest_loop y rs bm cd = bm" by auto
        then show ?thesis using step no Some False by auto
      qed
    qed
  qed
qed

lemma find_cong_pred: "(\<And>x. x \<in> set xs \<Longrightarrow> P x = Q x) \<Longrightarrow> find P xs = find Q xs"
  by (induction xs) auto

lemma find_exists: "\<exists>x\<in>set xs. P x \<Longrightarrow> \<exists>w. find P xs = Some w"
  by (cases "find P xs") (auto simp: find_None_iff)

lemma select_show_policy:
  assumes "results \<noteq> []"
  shows "\<exists>w. select_show year results = Inr w \<and> selection_policy year results w"
proof -
  obtain r rs where rs: "results = r # rs" using assms by (cases results) auto
  then have first: "first_result results = Inr r" by (simp add: first_result_def)
  show ?thesis
  proof (cases "truthy year")
    case False
    then show ?thesis using first
      by (auto simp: select_show_def selection_policy_def truthy_def split: option.splits)
  next
    case True
    then obtain y where y: "year = Some y" "y \<noteq> 0"
      by (auto simp: truthy_def split: option.splits)
    let ?near = "\<lambda>show. truthy (show_year show) \<and> \<bar>the (show_year show) - y\<bar> \<le> 1"
    have near_iff: "?near s \<longleftrightarrow> (\<exists>d. year_diff y s = Some d \<and> d \<le> 1)" for s
      by (cases "show_year s") (simp_all add: truthy_def year_diff_def)
    have near: "find ?near results = find (\<lambda>s. \<exists>d. year_diff y s = Some d \<and> d \<le> 1) results"
      by (rule find_cong_pred) (rule near_iff)
    have near_ex: "(\<exists>s\<in>set results. ?near s) \<longleftrightarrow>
        (\<exists>s\<in>set results. \<exists>d. year_diff y s = Some d \<and> d \<le> 1)"
      using near_iff by blast
    show ?thesis
    proof (cases "\<exists>s\<in>set results. show_year s = Some y")
      case True
      then obtain w where "find (\<lambda>s. show_year s = Some y) results = Some w"
        using find_exists[of results "\<lambda>s. show_year s = Some y"] by blast
      then show ?thesis using True y \<open>truthy year\<close>
        by (simp add: select_show_def selection_policy_def)
    next
      case False
      then have noexact: "find (\<lambda>s. show_year s = Some y) results = None"
        by (simp add: find_None_iff)
      show ?thesis
      proof (cases "\<exists>s\<in>set results. \<exists>d. year_diff y s = Some d \<and> d \<le> 1")
        case True
        then obtain w where "find (\<lambda>s. \<exists>d. year_diff y s = Some d \<and> d \<le> 1) results = Some w"
          using find_exists[of results "\<lambda>s. \<exists>d. year_diff y s = Some d \<and> d \<le> 1"] by blast
        then show ?thesis using True False noexact near y \<open>truthy year\<close>
          by (simp add: select_show_def selection_policy_def)
      next
        case nonear: False
        then have "\<not> (\<exists>s\<in>set results. ?near s)" using near_ex by blast
        then have nonear': "find ?near results = None"
          unfolding find_None_iff by blast
        show ?thesis
        proof (cases "\<exists>s\<in>set results. \<exists>d. year_diff y s = Some d \<and> d < 9999")
          case True
          with closest_loop_spec[of results y 9999 None] obtain w dw where
            "closest_loop y results None 9999 = Some w" "year_diff y w = Some dw"
            "\<forall>s\<in>set results. \<forall>d. year_diff y s = Some d \<longrightarrow> dw \<le> d"
            "find (\<lambda>s. year_diff y s = Some dw) results = Some w"
            by auto
          then show ?thesis using True False nonear noexact nonear' y \<open>truthy year\<close>
            by (auto simp: select_show_def selection_policy_def)
        next
          case far: False
          with closest_loop_spec[of results y 9999 None]
          have "closest_loop y results None 9999 = None" by auto
          then show ?thesis using far False nonear noexact nonear' y \<open>truthy year\<close> first
            by (auto simp: select_show_def selection_policy_def)
        qed
      qed
    qed
  qed
qed

lemma digits_value_nonneg: "0 \<le> foldl (\<lambda>acc c. 10 * acc + int (case digit_val c of None \<Rightarrow> 0 | Some v \<Rightarrow> v)) a g"
  if "0 \<le> a"
  using that by (induction g arbitrary: a) auto

lemma int_body_ok_all_digits: "g \<noteq> [] \<Longrightarrow> list_all is_digit g \<Longrightarrow> int_body_ok g"
  using underscore_not_digit by (induction g rule: int_body_ok.induct) auto

lemma filter_digits: "list_all is_digit g \<Longrightarrow> filter (\<lambda>c. c \<noteq> 95) g = g"
  using underscore_not_digit by (induction g) auto

lemma strip_all_digits: "g \<noteq> [] \<Longrightarrow> list_all is_digit g \<Longrightarrow> strip g = g"
proof -
  assume g: "g \<noteq> []" "list_all is_digit g"
  then have "\<not> is_int_space (hd g)" by (cases g) (auto dest: int_space_not_digit)
  then have 1: "dropWhile is_int_space g = g" using g(1) by (cases g) auto
  have "\<not> is_int_space (last g)" using g by (auto simp: list_all_iff dest: int_space_not_digit)
  then have 2: "dropWhile is_int_space (rev g) = rev g"
    using g(1) by (cases "rev g") (auto simp: hd_rev)
  show ?thesis unfolding strip_def 1 2 by simp
qed

lemma py_int_all_digits:
  assumes "g \<noteq> []" "list_all is_digit g"
  shows "\<exists>v. py_int g = Inr v \<and> 0 \<le> v"
proof -
  obtain c r where g: "g = c # r" using assms(1) by (cases g) auto
  then have "is_digit c" using assms(2) by simp
  then have c: "c \<noteq> 43" "c \<noteq> 45" using sign_not_digit by auto
  show ?thesis
    using strip_all_digits[OF assms] int_body_ok_all_digits[OF assms] filter_digits[OF assms(2)]
      digits_value_nonneg[of 0 g] g c
    by (simp add: py_int_def digits_value_def)
qed

lemma pat_year_groups:
  assumes "(gs, rest) \<in> set (rmatch pat_year ys)"
  shows "\<exists>g. gs = [g] \<and> g \<noteq> [] \<and> list_all is_digit g"
proof -
  from assms obtain g1 h1 r where 1: "(g1, r) \<in> set (rmatch (Chr (Lit 40)) ys)"
      and 2: "(h1, rest) \<in> set (rmatch (Cat (Grp (Rep Digit 4 4)) (Chr (Lit 41))) r)"
      and gs1: "gs = g1 @ h1"
    unfolding pat_year_def seq.simps by (subst (asm) rmatch_Cat_iff) blast
  from 2 obtain g2 h2 m where 3: "(g2, m) \<in> set (rmatch (Grp (Rep Digit 4 4)) r)"
      and 4: "(h2, rest) \<in> set (rmatch (Chr (Lit 41)) m)" and gs2: "h1 = g2 @ h2"
    by (subst (asm) rmatch_Cat_iff) blast
  from 1 have g1: "g1 = []" unfolding rmatch_Chr_iff by blast
  from 4 have h2: "h2 = []" unfolding rmatch_Chr_iff by blast
  from 3 obtain k where k: "4 \<le> k" "k \<le> run Digit r" "m = drop k r"
      "g2 = [take (length r - length m) r]"
    unfolding rmatch_Grp_iff rmatch_Rep_iff by blast
  have kl: "k \<le> length r" using k(2) run_le[of Digit r] by simp
  then have "g2 = [take k r]" using k(3,4) by simp
  moreover have "list_all is_digit (take k r)"
    using take_run[OF k(2)] by (auto simp: list_all_iff)
  moreover have "take k r \<noteq> []" using k(1) kl by auto
  ultimately show ?thesis using gs1 gs2 g1 h2 by simp
qed

lemma extract_year_total: "\<exists>year. extract_year title = Inr year"
proof (cases "re_search pat_year title")
  case None
  then show ?thesis by (simp add: extract_year_def)
next
  case (Some gs)
  then obtain ys rest where "(gs, rest) \<in> set (rmatch pat_year ys)"
    using re_search_rmatch by blast
  then obtain g where g: "gs = [g]" "g \<noteq> []" "list_all is_digit g"
    using pat_year_groups by blast
  then obtain v where "py_int g = Inr v" using py_int_all_digits by blast
  then show ?thesis using Some g(1) by (simp add: extract_year_def int_group_def group_def)
qed

text \<open>
  Claim C6, as amended. On a cache miss with a successful, non-empty search result,
  \<^verbatim>\<open>search_tv_show\<close> returns the candidate that the policy selects and writes its ID into
  the cache under the title as given (year included) before returning. The policy, for a
  title with a year other than 0: (a) the first candidate whose year equals it, else
  (b) the first candidate whose non-zero year is within one year of it, else (c) the first
  among the candidates of least absolute year difference, if some candidate has a non-zero
  year and a difference below 9999, else (d) the first result; for a title without a year,
  or with the year 0000, the first result.
\<close>

theorem search_tv_show_policy:
  assumes "tmdb_map cache = JObj kvs" "title \<notin> fst ` set kvs"
    and "response = Response 200 results" "results \<noteq> []"
  shows "\<exists>year w. extract_year title = Inr year \<and> selection_policy year results w \<and>
           search_tv_show title cache response =
             (Inr (Some (JInt (tv_id w), tv_name w)),
              cache\<lparr>tmdb_map := JObj (dict_set kvs title (JInt (tv_id w)))\<rparr>) \<and>
           map_of (dict_set kvs title (JInt (tv_id w))) title = Some (JInt (tv_id w))"
proof -
  obtain year where year: "extract_year title = Inr year" using extract_year_total by blast
  obtain w where w: "select_show year results = Inr w" "selection_policy year results w"
    using select_show_policy[OF assms(4)] by blast
  have miss: "py_in title (tmdb_map cache) = Inr False"
    using assms(1,2) by (simp add: py_in_def)
  have set: "py_setitem (tmdb_map cache) title (JInt (tv_id w)) =
      Inr (JObj (dict_set kvs title (JInt (tv_id w))))"
    using assms(1) by (simp add: py_setitem_def)
  have look: "map_of (dict_set kvs title v) title = Some v" for v
    by (induction kvs) auto
  have "search_tv_show title cache response =
             (Inr (Some (JInt (tv_id w), tv_name w)),
              cache\<lparr>tmdb_map := JObj (dict_set kvs title (JInt (tv_id w)))\<rparr>)"
    using miss year w(1) set assms(3,4) by (simp add: search_tv_show_def)
  then show ?thesis using year w(2) look by blast
qed

lemmas search_eval = search_tv_show_def py_in_def py_setitem_def extract_year_def pat_year_def
  select_show_def truthy_def show_year_def first_result_def create_empty_def

theorem search_tv_show_policy_witness:
  "search_tv_show (str_of ''Gotham (2014)'') create_empty
     (Response 200
       [\<lparr>tv_id = 1, tv_name = str_of ''Gotham Knights'', first_air_date = Some (str_of ''2023-03-14'')\<rparr>,
        \<lparr>tv_id = 60708, tv_name = str_of ''Gotham'', first_air_date = Some (str_of ''2014-09-22'')\<rparr>]) =
   (Inr (Some (JInt 60708, str_of ''Gotham'')),
    create_empty\<lparr>tmdb_map := JObj [(str_of ''Gotham (2014)'', JInt 60708)]\<rparr>)"
proof -
  let ?a = "\<lparr>tv_id = 1, tv_name = str_of ''Gotham Knights'', first_air_date = Some (str_of ''2023-03-14'')\<rparr>"
  let ?b = "\<lparr>tv_id = 60708, tv_name = str_of ''Gotham'', first_air_date = Some (str_of ''2014-09-22'')\<rparr>"
  have y: "extract_year (str_of ''Gotham (2014)'') = Inr (Some 2014)"
    by (simp add: search_eval parse_eval)
  have ya: "show_year ?a = Some 2023" by (simp add: search_eval parse_eval)
  have yb: "show_year ?b = Some 2014" by (simp add: search_eval parse_eval)
  from search_tv_show_policy[where cache = create_empty and kvs = "[]"
      and title = "str_of ''Gotham (2014)''" and results = "[?a, ?b]", OF _ _ refl]
  obtain year w where w: "extract_year (str_of ''Gotham (2014)'') = Inr year"
      "selection_policy year [?a, ?b] w"
      "search_tv_show (str_of ''Gotham (2014)'') create_empty (Response 200 [?a, ?b]) =
         (Inr (Some (JInt (tv_id w), tv_name w)),
          create_empty\<lparr>tmdb_map := JObj (dict_set [] (str_of ''Gotham (2014)'') (JInt (tv_id w)))\<rparr>)"
    by (auto simp: create_empty_def)
  have "year = Some 2014" using w(1) y by simp
  then have "w = ?b" using w(2) ya yb by (simp add: selection_policy_def)
  then show ?thesis using w(3) by simp
qed

text \<open>
  Claim C6 as stated fails for a title with the year 0000: the year is extracted, a
  candidate with a year exists, and the first result is returned all the same. It also
  fails when the only dated candidate is 9999 or more years away.
\<close>

theorem search_tv_show_year_zero:
  "extract_year (str_of ''Show (0000)'') = Inr (Some 0) \<and>
   show_year \<lparr>tv_id = 2, tv_name = str_of ''B'', first_air_date = Some (str_of ''2001-05-01'')\<rparr> = Some 2001 \<and>
   show_year \<lparr>tv_id = 1, tv_name = str_of ''A'', first_air_date = Some []\<rparr> = None \<and>
   fst (search_tv_show (str_of ''Show (0000)'') create_empty
     (Response 200
       [\<lparr>tv_id = 1, tv_name = str_of ''A'', first_air_date = Some []\<rparr>,
        \<lparr>tv_id = 2, tv_name = str_of ''B'', first_air_date = Some (str_of ''2001-05-01'')\<rparr>])) =
   Inr (Some (JInt 1, str_of ''A'')) \<and>
   extract_year (str_of ''Show (9999)'') = Inr (Some 9999) \<and>
   show_year \<lparr>tv_id = 3, tv_name = str_of ''C'', first_air_date = Some (str_of ''-001-01-01'')\<rparr> =
     Some (- 1) \<and>
   fst (search_tv_show (str_of ''Show (9999)'') create_empty
     (Response 200
       [\<lparr>tv_id = 1, tv_name = str_of ''A'', first_air_date = Some []\<rparr>,
        \<lparr>tv_id = 3, tv_name = str_of ''C'', first_air_date = Some (str_of ''-001-01-01'')\<rparr>])) =
   Inr (Some (JInt 1, str_of ''A''))"
  by (simp add: search_eval parse_eval)


subsection \<open>Remediation dispatcher\<close>

lemma authorized_post_returns: "\<exists>r s'. authorized_post reply depth w s = (Inr r, s')"
proof (induction depth arbitrary: s)
  case 0
  have "authorized_post reply 0 w s = (Inr (False, JNull), s)" by simp
  then show ?case by blast
next
  case (Suc depth)
  show ?case
  proof (cases "logged_in s")
    case False
    then have "authorized_post reply (Suc depth) w s = (Inr (False, JNull), s)" by simp
    then show ?thesis by blast
  next
    case True
    let ?s1 = "s\<lparr>n_post := Suc (n_post s)\<rparr>"
    show ?thesis
    proof (cases "post_resp w (n_post s)")
      case NetworkError
      then have "authorized_post reply (Suc depth) w s = (Inr (False, JNull), ?s1)"
        using True by simp
      then show ?thesis by blast
    next
      case (Http status body)
      show ?thesis
      proof (cases "status = 401")
        case False
        then have "authorized_post reply (Suc depth) w s =
            (Inr (if status = 200 then (case body of None \<Rightarrow> (False, JNull) | Some data \<Rightarrow> reply data)
                  else (False, JNull)), ?s1)"
          using True Http by (cases body) (simp_all add: Let_def)
        then show ?thesis by blast
      next
        case st: True
        obtain lr s2 where l: "login w ?s1 = (lr, s2)" by (cases "login w ?s1")
        show ?thesis
        proof (cases "lr = Inr True")
          case True
          then show ?thesis using \<open>logged_in s\<close> Http st l Suc.IH[of s2] by (simp add: Let_def)
        next
          case False
          then have "authorized_post reply (Suc depth) w s = (Inr (False, JNull), s2)"
            using \<open>logged_in s\<close> Http st l
            by (cases lr) (auto simp: Let_def split: bool.splits)
          then show ?thesis by blast
        qed
      qed
    qed
  qed
qed

lemma create_subscribe_returns: "\<exists>r s'. create_subscribe depth w s = (Inr r, s')"
  unfolding create_subscribe_def by (rule authorized_post_returns)

lemma download_attempt_returns:
  "\<exists>outcome s'. download_attempt depth w season episodes s = (Inr outcome, s')"
  by (auto simp: download_attempt_def split: prod.splits sum.splits)

lemma extract_year_returns: "extract_year t = Inl e \<Longrightarrow> False"
  using extract_year_total[of t] by auto

text \<open>
  Claim C5. Let the subscribe attempt be made (the session is logged in, subscribing is
  called for) and fail, by returning failure or by raising. Then
  \<^verbatim>\<open>handle_missing_episodes\<close> returns an outcome and raises nothing; with auto-download
  enabled the outcome is that of the download attempt, made from the state the subscribe
  attempt left; otherwise it is the failure outcome that carries the subscribe error.
\<close>

theorem handle_missing_subscribe_failure:
  assumes "(if logged_in s then (Inr True, s) else login w s) = (Inr True, s1)"
    and "should_subscribe auto_subscribe subscribe_threshold episodes"
    and "create_subscribe depth w s1 = (r, s2)"
    and "\<forall>sid. r \<noteq> Inr (True, sid)"
  shows "\<exists>outcome s3.
           handle_missing_episodes depth w s show_name tmdb_id season episodes auto_subscribe
             auto_download subscribe_threshold = (Inr outcome, s3) \<and>
           (if auto_download then download_attempt depth w season episodes s2 = (Inr outcome, s3)
            else s3 = s2 \<and>
                 outcome = \<lparr>mp_success = False,
                            mp_message = (case r of Inl e \<Rightarrow> SubscribeError e | Inr _ \<Rightarrow> SubscribeFailed),
                            mp_data = None\<rparr>)"
proof -
  obtain year where year: "extract_year show_name = Inr year"
    using extract_year_total by blast
  obtain ok sid where r: "r = Inr (ok, sid)"
    using create_subscribe_returns[of depth w s1] assms(3) by (cases r) auto
  then have ok: "ok = False" using assms(4) by auto
  obtain outcome s3 where d: "download_attempt depth w season episodes s2 = (Inr outcome, s3)"
    using download_attempt_returns by blast
  show ?thesis
  proof (cases auto_download)
    case True
    then show ?thesis using assms(1,2,3) year r ok d
      by (simp add: handle_missing_episodes_def after_subscribe_def)
  next
    case False
    then show ?thesis using assms(1,2,3) year r ok
      by (simp add: handle_missing_episodes_def)
  qed
qed

theorem handle_missing_subscribe_failure_witness:
  "handle_missing_episodes 10 failing_world session (str_of ''Gotham (2014)'') 60708 2 [5] True False 0 =
     (Inr \<lparr>mp_success = False, mp_message = SubscribeFailed, mp_data = None\<rparr>,
      session\<lparr>n_post := 1\<rparr>) \<and>
   handle_missing_episodes 10 failing_world session (str_of ''Gotham (2014)'') 60708 2 [5] True True 0 =
     download_attempt 10 failing_world 2 [5] (session\<lparr>n_post := 1\<rparr>)"
proof -
  have 1: "(if logged_in session then (Inr True, session) else login failing_world session) =
      (Inr True, session)"
    by (simp add: logged_in_def session_def str_of_def)
  have 2: "should_subscribe True 0 [5]" by (simp add: should_subscribe_def)
  have 3: "create_subscribe 10 failing_world session = (Inr (False, JNull), session\<lparr>n_post := 1\<rparr>)"
    by (simp add: create_subscribe_def logged_in_def session_def failing_world_def str_of_def
          eval_nat_numeral Let_def)
  have 4: "\<forall>sid. (Inr (False, JNull) :: error + bool \<times> json) \<noteq> Inr (True, sid)" by simp
  from handle_missing_subscribe_failure[OF 1 2 3 4, where auto_download = False
      and show_name = "str_of ''Gotham (2014)''" and tmdb_id = 60708 and season = 2]
  have a: "handle_missing_episodes 10 failing_world session (str_of ''Gotham (2014)'') 60708 2 [5]
      True False 0 =
     (Inr \<lparr>mp_success = False, mp_message = SubscribeFailed, mp_data = None\<rparr>,
      session\<lparr>n_post := 1\<rparr>)"
    by auto
  from handle_missing_subscribe_failure[OF 1 2 3 4, where auto_download = True
      and show_name = "str_of ''Gotham (2014)''" and tmdb_id = 60708 and season = 2]
  have b: "handle_missing_episodes 10 failing_world session (str_of ''Gotham (2014)'') 60708 2 [5]
      True True 0 = download_attempt 10 failing_world 2 [5] (session\<lparr>n_post := 1\<rparr>)"
    by auto
  show ?thesis using a b by simp
qed

lemmas mp_eval = create_subscribe_def add_download_task_def login_def logged_in_def py_in_def
  subscribe_reply_def download_reply_def dict_get_def str_of_def token_body_def subscribed_body_def
  expired_world_def expired_thrice_world_def failing_world_def session_def Let_def
text \<open>
  Claim C4 against the code: when the service answers 401 three times and then accepts,
  \<^verbatim>\<open>create_subscribe\<close> logs in three times and succeeds on the fourth request; when the
  service answers 401 to every request and accepts every login, \<^verbatim>\<open>create_subscribe\<close> and
  \<^verbatim>\<open>add_download_task\<close> log in and retry once per level of recursion depth available,
  whatever that depth is, before they return failure. Neither stops after one re-login
  and retry.
\<close>

theorem create_subscribe_repeated_relogin:
  "create_subscribe 10 expired_thrice_world session =
     (Inr (True, JInt 7),
      session\<lparr>access_token := Some (str_of ''Bearer abc''), n_login := 3, n_post := 4\<rparr>)"
  by (simp add: mp_eval eval_nat_numeral)

end
